theory Spec2Isabelle
  imports Main "HOL-Library.Word" "HOL-Library.Sublist"
begin

section \<open>The commit-and-push helper (scripts/commit\_and\_push.py)\<close>

text \<open>
  The script normalises a fixed list of text files, asks git whether whitespace errors
  remain, stages the list, re-checks the staged names against a denylist, and then commits
  and pushes unless a dry run was requested.

  Modelling decisions.
  \<^item> A Python \<open>bytes\<close> object is a list of 8-bit words; a Python \<open>str\<close> is a list of
    Unicode code points (natural numbers).
  \<^item> \<open>bytes.decode("utf-8")\<close> and \<open>str.encode("utf-8")\<close> are modelled after
    the strict codec: overlong forms, surrogates and values above U+10FFFF are rejected.
  \<^item> The working tree is a partial map from relative paths to nodes, and \<open>write_text\<close>
    writes the encoded bytes without newline translation (the POSIX behaviour).
    \<open>normalize_text_file\<close> and \<open>main\<close> are modelled on a file system that grants every
    read and write; \<open>normalize_text_file_io\<close> is the same function on a file system that
    may refuse them.
  \<^item> The version-control tool is an arbitrary function from the state of the run so far
    and the command to an exit status and an output, which is a text or does not decode as
    one. It is installed, and it does not change the files of the working tree.
  \<^item> Every external command, file read and file write is appended to a trace, so that
    statements of the form "commit is never invoked" are statements about the trace.
  \<^item> \<open>main_on\<close> is \<open>main\<close> from the parsed command line on; \<open>script_on\<close> puts the
    outcome of \<open>parse_args\<close> in front of it. \<open>os.chdir\<close> succeeds.
  \<^item> Console output (\<open>print\<close>, \<open>sys.stderr.write\<close>) is not modelled.
  \<^item> Exit statuses are those of a POSIX system: the low eight bits of the integer.
\<close>

subsection \<open>Bytes, text and the UTF-8 codec\<close>

type_synonym byte = "8 word"
type_synonym pystr = "nat list"

definition py :: "string \<Rightarrow> pystr" where
  "py s = map of_char s"

text \<open>\<open>raw.replace(b"\r\n", b"\n")\<close>: a left-to-right scan, non-overlapping.\<close>

fun replace_crlf :: "byte list \<Rightarrow> byte list" where
  "replace_crlf [] = []"
| "replace_crlf (b # bs) =
     (if b = 0x0D then
        (case bs of
           [] \<Rightarrow> b # replace_crlf bs
         | b' # r \<Rightarrow> if b' = 0x0A then 0x0A # replace_crlf r else b # replace_crlf bs)
      else b # replace_crlf bs)"

definition in_range :: "nat \<Rightarrow> nat \<Rightarrow> byte \<Rightarrow> bool" where
  "in_range lo hi b \<longleftrightarrow> lo \<le> unat b \<and> unat b \<le> hi"

definition cont_bits :: "byte \<Rightarrow> nat" where
  "cont_bits b = unat b - 0x80"

text \<open>
  One scalar value is decoded from the front of the input. The permitted ranges of the
  second byte after the lead bytes E0, ED, F0 and F4 exclude overlong forms, surrogates
  and values above U+10FFFF.
\<close>

definition utf8_next2 :: "byte \<Rightarrow> byte list \<Rightarrow> (nat \<times> byte list) option" where
  "utf8_next2 b0 r0 =
     (case r0 of
        b1 # r1 \<Rightarrow>
          if in_range 0x80 0xBF b1
          then Some ((unat b0 - 0xC0) * 0x40 + cont_bits b1, r1)
          else None
      | _ \<Rightarrow> None)"

definition utf8_next3 :: "byte \<Rightarrow> byte list \<Rightarrow> (nat \<times> byte list) option" where
  "utf8_next3 b0 r0 =
     (case r0 of
        b1 # b2 # r2 \<Rightarrow>
          if in_range (if unat b0 = 0xE0 then 0xA0 else 0x80)
                      (if unat b0 = 0xED then 0x9F else 0xBF) b1
             \<and> in_range 0x80 0xBF b2
          then Some (((unat b0 - 0xE0) * 0x40 + cont_bits b1) * 0x40 + cont_bits b2, r2)
          else None
      | _ \<Rightarrow> None)"

definition utf8_next4 :: "byte \<Rightarrow> byte list \<Rightarrow> (nat \<times> byte list) option" where
  "utf8_next4 b0 r0 =
     (case r0 of
        b1 # b2 # b3 # r3 \<Rightarrow>
          if in_range (if unat b0 = 0xF0 then 0x90 else 0x80)
                      (if unat b0 = 0xF4 then 0x8F else 0xBF) b1
             \<and> in_range 0x80 0xBF b2 \<and> in_range 0x80 0xBF b3
          then Some ((((unat b0 - 0xF0) * 0x40 + cont_bits b1) * 0x40 + cont_bits b2) * 0x40
                     + cont_bits b3, r3)
          else None
      | _ \<Rightarrow> None)"

definition utf8_next :: "byte list \<Rightarrow> (nat \<times> byte list) option" where
  "utf8_next bs =
     (case bs of
        [] \<Rightarrow> None
      | b0 # r0 \<Rightarrow>
          if unat b0 < 0x80 then Some (unat b0, r0)
          else if in_range 0xC2 0xDF b0 then utf8_next2 b0 r0
          else if in_range 0xE0 0xEF b0 then utf8_next3 b0 r0
          else if in_range 0xF0 0xF4 b0 then utf8_next4 b0 r0
          else None)"

lemma utf8_next2_shorter: "utf8_next2 b r = Some (c, rest) \<Longrightarrow> length rest < length r"
  by (cases r) (simp_all add: utf8_next2_def split: if_splits)

lemma utf8_next3_shorter: "utf8_next3 b r = Some (c, rest) \<Longrightarrow> length rest < length r"
  by (simp add: utf8_next3_def split: list.splits if_splits)

lemma utf8_next4_shorter: "utf8_next4 b r = Some (c, rest) \<Longrightarrow> length rest < length r"
  by (simp add: utf8_next4_def split: list.splits if_splits)

lemma utf8_next_shorter:
  "utf8_next bs = Some (c, rest) \<Longrightarrow> length rest < length bs"
  by (cases bs)
     (auto simp: utf8_next_def split: if_splits
           dest: utf8_next2_shorter utf8_next3_shorter utf8_next4_shorter)

text \<open>\<open>raw2.decode("utf-8")\<close>; \<open>None\<close> stands for \<open>UnicodeDecodeError\<close>.\<close>

function utf8_decode :: "byte list \<Rightarrow> pystr option" where
  "utf8_decode bs =
     (if bs = [] then Some []
      else (case utf8_next bs of
              None \<Rightarrow> None
            | Some (c, rest) \<Rightarrow> map_option ((#) c) (utf8_decode rest)))"
  by pat_completeness auto
termination
  by (relation "measure length") (auto dest: utf8_next_shorter)

declare utf8_decode.simps [simp del]

text \<open>
  \<open>cleaned.encode("utf-8")\<close>; \<open>None\<close> stands for \<open>UnicodeEncodeError\<close>, which the
  codec raises on a surrogate code point (a value above U+10FFFF cannot occur in a
  \<open>str\<close> at all).
\<close>

definition utf8_encode_char :: "nat \<Rightarrow> byte list option" where
  "utf8_encode_char c =
     (if c < 0x80 then Some [of_nat c]
      else if c < 0x800 then Some [of_nat (0xC0 + c div 0x40), of_nat (0x80 + c mod 0x40)]
      else if 0xD800 \<le> c \<and> c \<le> 0xDFFF then None
      else if c < 0x10000 then
        Some [of_nat (0xE0 + c div 0x1000), of_nat (0x80 + c div 0x40 mod 0x40),
              of_nat (0x80 + c mod 0x40)]
      else if c < 0x110000 then
        Some [of_nat (0xF0 + c div 0x40000), of_nat (0x80 + c div 0x1000 mod 0x40),
              of_nat (0x80 + c div 0x40 mod 0x40), of_nat (0x80 + c mod 0x40)]
      else None)"

fun utf8_encode :: "pystr \<Rightarrow> byte list option" where
  "utf8_encode [] = Some []"
| "utf8_encode (c # cs) =
     (case utf8_encode_char c of
        None \<Rightarrow> None
      | Some bs \<Rightarrow> map_option ((@) bs) (utf8_encode cs))"

subsection \<open>The string methods the script calls\<close>

text \<open>
  \<open>str.splitlines\<close> breaks a text after each of the line boundaries below; a carriage
  return directly followed by a line feed is one boundary.
\<close>

definition is_linebreak :: "nat \<Rightarrow> bool" where
  "is_linebreak c \<longleftrightarrow> c \<in> set [0x0A, 0x0B, 0x0C, 0x0D, 0x1C, 0x1D, 0x1E, 0x85, 0x2028, 0x2029]"

text \<open>
  The scan of \<open>splitlines\<close>, with the characters of the current line collected in
  \<open>cur\<close>. A last line without a terminator is kept; no empty line follows a final
  terminator.
\<close>

fun splitlines_from :: "bool \<Rightarrow> pystr \<Rightarrow> pystr \<Rightarrow> pystr list" where
  "splitlines_from keepends cur [] = (if cur = [] then [] else [cur])"
| "splitlines_from keepends cur (c # cs) =
     (if c = 0x0D then
        (case cs of
           [] \<Rightarrow> (cur @ (if keepends then [c] else [])) # splitlines_from keepends [] cs
         | d # r \<Rightarrow>
             if d = 0x0A
             then (cur @ (if keepends then [c, d] else [])) # splitlines_from keepends [] r
             else (cur @ (if keepends then [c] else [])) # splitlines_from keepends [] cs)
      else if is_linebreak c
      then (cur @ (if keepends then [c] else [])) # splitlines_from keepends [] cs
      else splitlines_from keepends (cur @ [c]) cs)"

definition splitlines :: "bool \<Rightarrow> pystr \<Rightarrow> pystr list" where
  "splitlines keepends s = splitlines_from keepends [] s"

text \<open>\<open>s.rstrip(chars)\<close>, \<open>s.endswith(suffix)\<close> and \<open>s.startswith(prefixes)\<close>.\<close>

definition rstrip :: "'a list \<Rightarrow> 'a list \<Rightarrow> 'a list" where
  "rstrip chars s = rev (dropWhile (\<lambda>c. c \<in> set chars) (rev s))"

definition endswith :: "pystr \<Rightarrow> pystr \<Rightarrow> bool" where
  "endswith s suf \<longleftrightarrow> suffix suf s"

definition startswith_any :: "pystr \<Rightarrow> pystr list \<Rightarrow> bool" where
  "startswith_any s pres \<longleftrightarrow> list_ex (\<lambda>p. prefix p s) pres"

text \<open>
  \<open>s.strip()\<close> without an argument removes leading and trailing white space, that is,
  the code points for which \<open>str.isspace\<close> holds.
\<close>

definition is_space :: "nat \<Rightarrow> bool" where
  "is_space c \<longleftrightarrow>
     (0x09 \<le> c \<and> c \<le> 0x0D) \<or> (0x1C \<le> c \<and> c \<le> 0x20) \<or> c = 0x85 \<or> c = 0xA0
     \<or> c = 0x1680 \<or> (0x2000 \<le> c \<and> c \<le> 0x200A) \<or> c = 0x2028 \<or> c = 0x2029
     \<or> c = 0x202F \<or> c = 0x205F \<or> c = 0x3000"

definition strip :: "pystr \<Rightarrow> pystr" where
  "strip s = rev (dropWhile is_space (rev (dropWhile is_space s)))"

subsection \<open>Configuration constants\<close>


definition FILES_TO_STAGE :: "pystr list" where
  "FILES_TO_STAGE =
     [py ''scripts/migrate-to-mongodb.js'',
      py ''scripts/commit_and_push.py'',
      py ''src/vite-env.d.ts'',
      py ''src/types/school.ts'',
      py ''src/components/Dashboard.tsx'',
      py ''src/components/SchoolCard.tsx'',
      py ''src/pages/SchoolsPage.tsx'',
      py ''src/components/pipeline/FillDataMode.tsx'',
      py ''src/components/pipeline/FunnelSelector.tsx'',
      py ''src/components/pipeline/NumericMetricsDistribution.tsx'',
      py ''src/components/pipeline/ResolveUnknownMode.tsx'',
      py ''src/config/api.ts'']"

definition FORBIDDEN_PATH_PREFIXES :: "pystr list" where
  "FORBIDDEN_PATH_PREFIXES = [py ''.env'', py ''server/data/'']"

definition is_forbidden_path :: "pystr \<Rightarrow> bool" where
  "is_forbidden_path rel = (if startswith_any rel FORBIDDEN_PATH_PREFIXES then True else False)"

subsection \<open>The state of a run\<close>

text \<open>
  A path of the working tree names a regular file with its bytes, or something that is
  not a regular file (a directory, say), or nothing.
\<close>

datatype node = RegularFile "byte list" | NotRegular

text \<open>The commands the script hands to \<open>subprocess.run\<close>, one constructor per argv.\<close>

datatype git_cmd =
    RevParseShowToplevel
  | DiffCheck
  | Add "pystr list"
  | DiffNameOnlyCached
  | Status
  | Commit pystr
  | RevParseAbbrevRefHead
  | Push pystr pystr

fun argv :: "git_cmd \<Rightarrow> pystr list" where
  "argv RevParseShowToplevel = [py ''git'', py ''rev-parse'', py ''--show-toplevel'']"
| "argv DiffCheck = [py ''git'', py ''diff'', py ''--check'']"
| "argv (Add files) = [py ''git'', py ''add'', py ''--''] @ files"
| "argv DiffNameOnlyCached = [py ''git'', py ''diff'', py ''--name-only'', py ''--cached'']"
| "argv Status = [py ''git'', py ''status'']"
| "argv (Commit msg) = [py ''git'', py ''commit'', py ''-m'', msg]"
| "argv RevParseAbbrevRefHead = [py ''git'', py ''rev-parse'', py ''--abbrev-ref'', py ''HEAD'']"
| "argv (Push remote branch) = [py ''git'', py ''push'', remote, branch]"

text \<open>
  \<open>subprocess.CompletedProcess\<close>: the exit status, and the captured output when the
  call asked for it.
\<close>

record proc =
  returncode :: int
  stdout :: "pystr option"

text \<open>
  What a run does, in order. \<open>Run cmd p\<close>: the command was executed and
  \<open>subprocess.run\<close> returned \<open>p\<close>. \<open>Undecodable cmd\<close>: the command was executed and
  \<open>subprocess.run\<close> could not decode its captured output.
\<close>

datatype event =
    Chdir pystr
  | ReadBytes pystr
  | WriteText pystr "byte list"
  | Run git_cmd proc
  | Undecodable git_cmd

record world =
  fs :: "pystr \<Rightarrow> node option"
  trace :: "event list"

text \<open>
  The external tool: from the state of the run and the command to the exit status and the
  text it prints; \<open>None\<close> when the bytes it prints are not a text in the encoding that
  \<open>subprocess.run(text=True)\<close> decodes with.
\<close>

type_synonym tool = "world \<Rightarrow> git_cmd \<Rightarrow> int \<times> pystr option"

text \<open>
  What can end the script other than a \<open>return\<close> from \<open>main\<close>: \<open>SystemExit\<close> with
  an integer, \<open>SystemExit\<close> with a message, and the exceptions for which the script has no
  handler: an encoding error, a decoding error of \<open>subprocess.run\<close>, and an error of the
  operating system on reading or writing a file.
\<close>

datatype exc =
    SystemExit_code int
  | SystemExit_msg pystr
  | UnicodeEncodeError
  | UnicodeDecodeError
  | OSError

definition log :: "event \<Rightarrow> world \<Rightarrow> world" where
  "log e w = w\<lparr>trace := trace w @ [e]\<rparr>"

text \<open>
  Sequencing of steps that may raise: the first exception ends the sequence, with the
  state reached so far.
\<close>

definition and_then ::
  "('e + 'a) \<times> world \<Rightarrow> ('a \<Rightarrow> world \<Rightarrow> ('e + 'b) \<times> world) \<Rightarrow> ('e + 'b) \<times> world" where
  "and_then r k = (case r of (Inl e, w) \<Rightarrow> (Inl e, w) | (Inr a, w) \<Rightarrow> k a w)"

subsection \<open>The functions of the script\<close>

text \<open>
  \<open>run(cmd, check, capture)\<close>: the command is executed and recorded. With \<open>capture\<close>
  its output is read as text, and \<open>subprocess.run\<close> raises \<open>UnicodeDecodeError\<close> when
  the output does not decode; without \<open>capture\<close> the output goes to the console and is not
  read. With \<open>check\<close> a non-zero exit status is re-raised as \<open>SystemExit\<close> with that
  status.
\<close>

definition run :: "tool \<Rightarrow> git_cmd \<Rightarrow> bool \<Rightarrow> bool \<Rightarrow> world \<Rightarrow> (exc + proc) \<times> world" where
  "run git cmd check capture w =
     (if capture \<and> snd (git w cmd) = None
      then (Inl UnicodeDecodeError, log (Undecodable cmd) w)
      else
      let p = \<lparr>returncode = fst (git w cmd),
               stdout = (if capture then snd (git w cmd) else None)\<rparr>;
          w' = log (Run cmd p) w
      in if check \<and> returncode p \<noteq> 0
         then (Inl (SystemExit_code (returncode p)), w')
         else (Inr p, w'))"

text \<open>\<open>p.stdout or ""\<close>.\<close>

definition stdout_or_empty :: "proc \<Rightarrow> pystr" where
  "stdout_or_empty p = (case stdout p of None \<Rightarrow> [] | Some s \<Rightarrow> s)"

definition repo_root :: "tool \<Rightarrow> world \<Rightarrow> (exc + pystr) \<times> world" where
  "repo_root git w =
     and_then (run git RevParseShowToplevel True True w) (\<lambda>p w1.
       let root = strip (stdout_or_empty p)
       in if root = []
          then (Inl (SystemExit_msg (py ''Not a git repository (git rev-parse failed).'')), w1)
          else (Inr root, w1))"

text \<open>
  The body of the loop over the lines in \<open>normalize_text_file\<close>, and the text that the
  function assembles from a decoded file.
\<close>

definition clean_line :: "pystr \<Rightarrow> pystr" where
  "clean_line ln =
     (if endswith ln [0x0A]
      then rstrip [0x20, 0x09, 0x0D, 0x0A] ln @ [0x0A]
      else rstrip [0x20, 0x09, 0x0D, 0x0A] ln)"

definition clean_text :: "pystr \<Rightarrow> pystr" where
  "clean_text text = concat (map clean_line (splitlines True text))"

definition write_text :: "pystr \<Rightarrow> byte list \<Rightarrow> world \<Rightarrow> world" where
  "write_text path bs w = log (WriteText path bs) (w\<lparr>fs := (fs w)(path \<mapsto> RegularFile bs)\<rparr>)"

definition normalize_text_file :: "pystr \<Rightarrow> world \<Rightarrow> (exc + bool) \<times> world" where
  "normalize_text_file path w =
     (case fs w path of
        None \<Rightarrow> (Inr False, w)
      | Some NotRegular \<Rightarrow> (Inr False, w)
      | Some (RegularFile raw) \<Rightarrow>
          let w1 = log (ReadBytes path) w;
              raw2 = replace_crlf raw
          in (case utf8_decode raw2 of
                None \<Rightarrow> (Inr False, w1)
              | Some text \<Rightarrow>
                  let cleaned = clean_text text
                  in (case utf8_encode cleaned of
                        None \<Rightarrow> (Inl UnicodeEncodeError, w1)
                      | Some enc \<Rightarrow>
                          if enc \<noteq> raw
                          then (Inr True, write_text path enc w1)
                          else (Inr False, w1))))"

fun normalize_files :: "pystr list \<Rightarrow> world \<Rightarrow> (exc + pystr list) \<times> world" where
  "normalize_files [] w = (Inr [], w)"
| "normalize_files (rel # rest) w =
     and_then (normalize_text_file rel w) (\<lambda>ch w1.
       and_then (normalize_files rest w1) (\<lambda>changed w2.
         (Inr (if ch then rel # changed else changed), w2)))"




record args =
  message :: pystr
  dry_run :: bool

text \<open>
  \<open>main\<close>, with the list of files to stage as a parameter; \<open>Inr n\<close> is \<open>return n\<close>.
  The parsed command line is an argument.
\<close>

definition main_on :: "pystr list \<Rightarrow> tool \<Rightarrow> args \<Rightarrow> world \<Rightarrow> (exc + int) \<times> world" where
  "main_on files git a w0 =
     and_then (repo_root git w0) (\<lambda>root w1.
       let w2 = log (Chdir root) w1 in
       (case find is_forbidden_path files of
          Some f \<Rightarrow> (Inl (SystemExit_msg (py ''Refusing to stage forbidden path: '' @ f)), w2)
        | None \<Rightarrow>
       and_then (normalize_files files w2) (\<lambda>changed w3.
       and_then (run git DiffCheck False True w3) (\<lambda>p w4.
         if returncode p \<noteq> 0 \<or> strip (stdout_or_empty p) \<noteq> [] then (Inr 2, w4)
         else
       and_then (run git (Add files) True False w4) (\<lambda>_ w5.
       and_then (run git DiffNameOnlyCached True True w5) (\<lambda>q w6.
         let staged_now = splitlines False (stdout_or_empty q) in
         if staged_now = [] then (Inr 0, w6)
         else
         let forbidden = filter is_forbidden_path staged_now in
         if forbidden \<noteq> [] then (Inr 3, w6)
         else
         if dry_run a
         then and_then (run git Status True False w6) (\<lambda>_ w7. (Inr 0, w7))
         else
         let msg = strip (message a) in
         if msg = [] then (Inr 4, w6)
         else
       and_then (run git (Commit msg) True False w6) (\<lambda>_ w7.
       and_then (run git RevParseAbbrevRefHead True True w7) (\<lambda>b w8.
         let branch = strip (stdout_or_empty b) in
         if branch = [] then (Inr 5, w8)
         else
       and_then (run git (Push (py ''origin'') branch) True False w8) (\<lambda>_ w9.
         (Inr 0, w9))))))))))"





text \<open>
  The integer that \<open>raise SystemExit(main())\<close> hands to the operating system: the
  returned or raised integer; 1 after \<open>SystemExit\<close> with a message and after an uncaught
  exception. The exit status of the process, as its parent sees it, is that integer reduced
  to eight bits.
\<close>

fun exit_status :: "exc + int \<Rightarrow> int" where
  "exit_status (Inr n) = n"
| "exit_status (Inl (SystemExit_code n)) = n"
| "exit_status (Inl (SystemExit_msg m)) = 1"
| "exit_status (Inl UnicodeEncodeError) = 1"
| "exit_status (Inl UnicodeDecodeError) = 1"
| "exit_status (Inl OSError) = 1"

definition process_status :: "exc + int \<Rightarrow> int" where
  "process_status r = exit_status r mod 256"

definition start :: "(pystr \<Rightarrow> node option) \<Rightarrow> world" where
  "start files = \<lparr>fs = files, trace = []\<rparr>"

subsection \<open>Vocabulary for statements about file contents\<close>

text \<open>
  The bytes that \<open>normalize_text_file\<close> compares with the file: \<open>None\<close> when the file
  does not decode and is skipped.
\<close>

definition clean_bytes :: "byte list \<Rightarrow> byte list option" where
  "clean_bytes raw =
     (case utf8_decode (replace_crlf raw) of
        None \<Rightarrow> None
      | Some text \<Rightarrow> utf8_encode (clean_text text))"

text \<open>A carriage return directly followed by a line feed occurs in the bytes.\<close>

fun has_crlf :: "byte list \<Rightarrow> bool" where
  "has_crlf (b # b' # bs) = ((b = 0x0D \<and> b' = 0x0A) \<or> has_crlf (b' # bs))"
| "has_crlf _ = False"

definition ends_with_LF :: "byte list \<Rightarrow> bool" where
  "ends_with_LF bs \<longleftrightarrow> bs \<noteq> [] \<and> last bs = 0x0A"

text \<open>
  No space or tab stands directly before a line feed or at the end of the bytes.
\<close>

fun no_trailing_whitespace :: "byte list \<Rightarrow> bool" where
  "no_trailing_whitespace [] = True"
| "no_trailing_whitespace [b] = (b \<noteq> 0x20 \<and> b \<noteq> 0x09)"
| "no_trailing_whitespace (b # b' # bs) =
     (\<not> ((b = 0x20 \<or> b = 0x09) \<and> b' = 0x0A) \<and> no_trailing_whitespace (b' # bs))"

subsection \<open>Scripted tools for the examples\<close>

text \<open>
  A tool whose answers do not depend on the state: every command succeeds, one file is
  staged and the branch is \<open>main\<close>. \<open>answering\<close> overrides the answer to one command.
\<close>

definition example_git :: tool where
  "example_git w c =
     (case c of
        RevParseShowToplevel \<Rightarrow> (0, Some (py ''/repo'' @ [0x0A]))
      | DiffNameOnlyCached \<Rightarrow> (0, Some (py ''a.txt'' @ [0x0A]))
      | RevParseAbbrevRefHead \<Rightarrow> (0, Some (py ''main'' @ [0x0A]))
      | _ \<Rightarrow> (0, Some []))"

definition answering :: "git_cmd \<Rightarrow> int \<times> pystr option \<Rightarrow> tool \<Rightarrow> tool" where
  "answering c r git = (\<lambda>w c'. if c' = c then r else git w c')"

text \<open>Kinds of events, for statements about what a run did.\<close>

fun is_commit :: "event \<Rightarrow> bool" where
  "is_commit (Run (Commit m) p) = True"
| "is_commit (Undecodable (Commit m)) = True"
| "is_commit _ = False"

fun is_push :: "event \<Rightarrow> bool" where
  "is_push (Run (Push r b) p) = True"
| "is_push (Undecodable (Push r b)) = True"
| "is_push _ = False"

fun is_file_event :: "event \<Rightarrow> bool" where
  "is_file_event (ReadBytes path) = True"
| "is_file_event (WriteText path bs) = True"
| "is_file_event _ = False"

section \<open>The codec: decoding and encoding are inverse to each other\<close>

subsection \<open>Arithmetic of the six-bit groups\<close>

lemma unat_of_nat_byte: "n < 256 \<Longrightarrow> unat (of_nat n :: byte) = n"
  by (simp add: unat_of_nat take_bit_nat_eq_self)

lemma unat_byte_lt: "unat (b::byte) < 256"
  using unsigned_less[of b, where 'a=nat] by simp

lemma split2:
  fixes a b :: nat
  assumes "b < 64"
  shows "(a * 64 + b) div 64 = a" "(a * 64 + b) mod 64 = b"
  using assms by simp_all

lemma div_4096: "(c::nat) div 4096 = c div 64 div 64"
  by (simp add: div_mult2_eq)

lemma div_262144: "(c::nat) div 262144 = c div 64 div 64 div 64"
  by (simp add: div_mult2_eq)

lemma split3:
  fixes a b1 b2 :: nat
  assumes "b1 < 64" "b2 < 64"
  shows "((a * 64 + b1) * 64 + b2) div 4096 = a"
    "((a * 64 + b1) * 64 + b2) div 64 mod 64 = b1"
    "((a * 64 + b1) * 64 + b2) mod 64 = b2"
  unfolding div_4096 using assms by (simp_all only: split2)

lemma split4:
  fixes a b1 b2 b3 :: nat
  assumes "b1 < 64" "b2 < 64" "b3 < 64"
  shows "(((a * 64 + b1) * 64 + b2) * 64 + b3) div 262144 = a"
    "(((a * 64 + b1) * 64 + b2) * 64 + b3) div 4096 mod 64 = b1"
    "(((a * 64 + b1) * 64 + b2) * 64 + b3) div 64 mod 64 = b2"
    "(((a * 64 + b1) * 64 + b2) * 64 + b3) mod 64 = b3"
  unfolding div_4096 div_262144 using assms by (simp_all only: split2)

lemma range2:
  fixes a b :: nat
  assumes "2 \<le> a" "a < 32" "b < 64"
  shows "128 \<le> a * 64 + b" "a * 64 + b < 2048"
  using assms by arith+

lemma range3:
  fixes a b1 b2 :: nat
  assumes "a < 16" "b1 < 64" "b2 < 64" "a = 0 \<longrightarrow> 32 \<le> b1" "a = 13 \<longrightarrow> b1 < 32"
  shows "2048 \<le> (a * 64 + b1) * 64 + b2" "(a * 64 + b1) * 64 + b2 < 65536"
    "\<not> (55296 \<le> (a * 64 + b1) * 64 + b2 \<and> (a * 64 + b1) * 64 + b2 \<le> 57343)"
proof -
  define m where "m = a * 64 + b1"
  have lo: "32 \<le> m"
  proof (cases "a = 0")
    case True then show ?thesis using assms(4) by (simp add: m_def)
  next
    case False
    then have "1 \<le> a" by simp
    then show ?thesis unfolding m_def by linarith
  qed
  have hi: "m < 1024" unfolding m_def using assms(1,2) by linarith
  have sur: "m < 864 \<or> 896 \<le> m"
  proof -
    consider "a \<le> 12" | "a = 13" | "14 \<le> a" by linarith
    then show ?thesis
    proof cases
      case 1 then show ?thesis unfolding m_def using assms(2) by linarith
    next
      case 2 then show ?thesis unfolding m_def using assms(5) by simp
    next
      case 3 then show ?thesis unfolding m_def by linarith
    qed
  qed
  show "2048 \<le> (a * 64 + b1) * 64 + b2" unfolding m_def[symmetric] using lo by linarith
  show "(a * 64 + b1) * 64 + b2 < 65536"
    unfolding m_def[symmetric] using hi assms(3) by linarith
  show "\<not> (55296 \<le> (a * 64 + b1) * 64 + b2 \<and> (a * 64 + b1) * 64 + b2 \<le> 57343)"
    unfolding m_def[symmetric] using sur assms(3) by linarith
qed

lemma range4:
  fixes a b1 b2 b3 :: nat
  assumes "a < 5" "b1 < 64" "b2 < 64" "b3 < 64" "a = 0 \<longrightarrow> 16 \<le> b1" "a = 4 \<longrightarrow> b1 < 16"
  shows "65536 \<le> ((a * 64 + b1) * 64 + b2) * 64 + b3"
    "((a * 64 + b1) * 64 + b2) * 64 + b3 < 1114112"
proof -
  define m where "m = a * 64 + b1"
  have lo: "16 \<le> m"
  proof (cases "a = 0")
    case True then show ?thesis using assms(5) by (simp add: m_def)
  next
    case False
    then have "1 \<le> a" by simp
    then show ?thesis unfolding m_def by linarith
  qed
  have hi: "m < 272"
  proof (cases "a = 4")
    case True then show ?thesis using assms(6) by (simp add: m_def)
  next
    case False
    then have "a \<le> 3" using assms(1) by linarith
    then show ?thesis unfolding m_def using assms(2) by linarith
  qed
  define k where "k = m * 64 + b2"
  have klo: "1024 \<le> k" unfolding k_def using lo by linarith
  have khi: "k < 17408" unfolding k_def using hi assms(3) by linarith
  show "65536 \<le> ((a * 64 + b1) * 64 + b2) * 64 + b3"
    unfolding m_def[symmetric] k_def[symmetric] using klo by linarith
  show "((a * 64 + b1) * 64 + b2) * 64 + b3 < 1114112"
    unfolding m_def[symmetric] k_def[symmetric] using khi assms(4) by linarith
qed

lemma join2: "(c::nat) div 64 * 64 + c mod 64 = c"
  by simp

lemma join3: "((c::nat) div 4096 * 64 + c div 64 mod 64) * 64 + c mod 64 = c"
  unfolding div_4096 by simp

lemma join4: "(((c::nat) div 262144 * 64 + c div 4096 mod 64) * 64 + c div 64 mod 64) * 64 + c mod 64 = c"
  unfolding div_4096 div_262144 by simp

lemma lead2: "128 \<le> (c::nat) \<Longrightarrow> c < 2048 \<Longrightarrow> 2 \<le> c div 64 \<and> c div 64 < 32"
  by (simp add: less_eq_div_iff_mult_less_eq div_less_iff_less_mult)

lemma lead3: "(c::nat) < 65536 \<Longrightarrow> c div 4096 < 16"
  by (simp add: div_less_iff_less_mult)

lemma lead4: "(c::nat) < 1114112 \<Longrightarrow> c div 262144 < 5"
  by (simp add: div_less_iff_less_mult)

lemma mod64_div: "(c::nat) div 64 mod 64 = c div 64 - c div 4096 * 64"
  unfolding div_4096 by (simp add: minus_mult_div_eq_mod mult.commute)

lemma second_E0: "2048 \<le> (c::nat) \<Longrightarrow> c div 4096 = 0 \<Longrightarrow> 32 \<le> c div 64 mod 64"
  unfolding mod64_div by (simp add: less_eq_div_iff_mult_less_eq)

lemma second_ED: "(c::nat) < 55296 \<Longrightarrow> c div 4096 = 13 \<Longrightarrow> c div 64 mod 64 < 32"
proof -
  assume a: "c < 55296" "c div 4096 = 13"
  have "c div 64 < 864" using a(1) by (simp add: div_less_iff_less_mult)
  then show ?thesis unfolding mod64_div a(2) by simp
qed

lemma mod64_div4: "(c::nat) div 4096 mod 64 = c div 4096 - c div 262144 * 64"
  unfolding div_4096 div_262144 by (simp add: minus_mult_div_eq_mod mult.commute)

lemma second_F0: "65536 \<le> (c::nat) \<Longrightarrow> c div 262144 = 0 \<Longrightarrow> 16 \<le> c div 4096 mod 64"
  unfolding mod64_div4 by (simp add: less_eq_div_iff_mult_less_eq)

lemma second_F4: "(c::nat) < 1114112 \<Longrightarrow> c div 262144 = 4 \<Longrightarrow> c div 4096 mod 64 < 16"
proof -
  assume a: "c < 1114112" "c div 262144 = 4"
  have "c div 4096 < 272" using a(1) by (simp add: div_less_iff_less_mult)
  then show ?thesis unfolding mod64_div4 a(2) by simp
qed

subsection \<open>Decoding one scalar value, then encoding it\<close>

lemma of_nat_unat_byte: "(of_nat (unat b) :: byte) = b"
  by simp

lemma next2_encode:
  assumes "in_range 0xC2 0xDF b0" "utf8_next2 b0 r0 = Some (c, rest)"
  shows "\<exists>b1. utf8_encode_char c = Some [b0, b1] \<and> r0 = b1 # rest \<and> 128 \<le> c"
proof -
  from assms(2) obtain b1 where r0: "r0 = b1 # rest" and b1: "in_range 0x80 0xBF b1"
    and c: "c = (unat b0 - 0xC0) * 0x40 + cont_bits b1"
    by (cases r0) (auto simp: utf8_next2_def split: if_splits)
  define a where "a = unat b0 - 192"
  define b where "b = unat b1 - 128"
  have a: "2 \<le> a" "a < 32" and n0: "192 + a = unat b0"
    using assms(1) unfolding in_range_def a_def by linarith+
  have b: "b < 64" and n1: "128 + b = unat b1"
    using b1 unfolding in_range_def b_def by linarith+
  have c': "c = a * 64 + b"
    by (simp add: c a_def b_def cont_bits_def)
  have rng: "128 \<le> c" "c < 2048" unfolding c' using a b by (rule range2)+
  have dm: "c div 64 = a" "c mod 64 = b" unfolding c' using b by (rule split2)+
  have "utf8_encode_char c = Some [of_nat (192 + a), of_nat (128 + b)]"
    using rng by (simp add: utf8_encode_char_def dm)
  also have "\<dots> = Some [b0, b1]"
    by (simp only: n0 n1 of_nat_unat_byte)
  finally show ?thesis using r0 rng by simp
qed

lemma next3_encode:
  assumes "in_range 0xE0 0xEF b0" "utf8_next3 b0 r0 = Some (c, rest)"
  shows "\<exists>b1 b2. utf8_encode_char c = Some [b0, b1, b2] \<and> r0 = b1 # b2 # rest \<and> 128 \<le> c"
proof -
  from assms(2) obtain b1 b2 where r0: "r0 = b1 # b2 # rest"
    and b1: "in_range (if unat b0 = 0xE0 then 0xA0 else 0x80)
                      (if unat b0 = 0xED then 0x9F else 0xBF) b1"
    and b2: "in_range 0x80 0xBF b2"
    and c: "c = ((unat b0 - 0xE0) * 0x40 + cont_bits b1) * 0x40 + cont_bits b2"
    by (auto simp: utf8_next3_def split: list.splits if_splits)
  define a where "a = unat b0 - 224"
  define x1 where "x1 = unat b1 - 128"
  define x2 where "x2 = unat b2 - 128"
  have a: "a < 16" and n0: "224 + a = unat b0"
    using assms(1) unfolding in_range_def a_def by linarith+
  have b1': "128 \<le> unat b1" "unat b1 \<le> 191"
    using b1 by (simp_all add: in_range_def split: if_splits)
  have x1: "x1 < 64" and n1: "128 + x1 = unat b1"
    using b1' unfolding x1_def by linarith+
  have x2: "x2 < 64" and n2: "128 + x2 = unat b2"
    using b2 unfolding in_range_def x2_def by linarith+
  have e0: "a = 0 \<longrightarrow> 32 \<le> x1"
    using b1 assms(1) by (auto simp: in_range_def a_def x1_def split: if_splits)
  have ed: "a = 13 \<longrightarrow> x1 < 32"
    using b1 assms(1) by (auto simp: in_range_def a_def x1_def split: if_splits)
  have c': "c = (a * 64 + x1) * 64 + x2"
    by (simp add: c a_def x1_def x2_def cont_bits_def)
  have rng: "2048 \<le> c" "c < 65536" "\<not> (55296 \<le> c \<and> c \<le> 57343)"
    unfolding c' using a x1 x2 e0 ed by (rule range3)+
  have dm: "c div 4096 = a" "c div 64 mod 64 = x1" "c mod 64 = x2"
    unfolding c' using x1 x2 by (rule split3)+
  have "utf8_encode_char c = Some [of_nat (224 + a), of_nat (128 + x1), of_nat (128 + x2)]"
    using rng by (simp add: utf8_encode_char_def dm)
  also have "\<dots> = Some [b0, b1, b2]"
    by (simp only: n0 n1 n2 of_nat_unat_byte)
  finally show ?thesis using r0 rng by simp
qed

lemma next4_encode:
  assumes "in_range 0xF0 0xF4 b0" "utf8_next4 b0 r0 = Some (c, rest)"
  shows "\<exists>b1 b2 b3. utf8_encode_char c = Some [b0, b1, b2, b3] \<and> r0 = b1 # b2 # b3 # rest
           \<and> 128 \<le> c"
proof -
  from assms(2) obtain b1 b2 b3 where r0: "r0 = b1 # b2 # b3 # rest"
    and b1: "in_range (if unat b0 = 0xF0 then 0x90 else 0x80)
                      (if unat b0 = 0xF4 then 0x8F else 0xBF) b1"
    and b2: "in_range 0x80 0xBF b2" and b3: "in_range 0x80 0xBF b3"
    and c: "c = (((unat b0 - 0xF0) * 0x40 + cont_bits b1) * 0x40 + cont_bits b2) * 0x40
                + cont_bits b3"
    by (auto simp: utf8_next4_def split: list.splits if_splits)
  define a where "a = unat b0 - 240"
  define x1 where "x1 = unat b1 - 128"
  define x2 where "x2 = unat b2 - 128"
  define x3 where "x3 = unat b3 - 128"
  have a: "a < 5" and n0: "240 + a = unat b0"
    using assms(1) unfolding in_range_def a_def by linarith+
  have b1': "128 \<le> unat b1" "unat b1 \<le> 191"
    using b1 by (simp_all add: in_range_def split: if_splits)
  have x1: "x1 < 64" and n1: "128 + x1 = unat b1"
    using b1' unfolding x1_def by linarith+
  have x2: "x2 < 64" and n2: "128 + x2 = unat b2"
    using b2 unfolding in_range_def x2_def by linarith+
  have x3: "x3 < 64" and n3: "128 + x3 = unat b3"
    using b3 unfolding in_range_def x3_def by linarith+
  have f0: "a = 0 \<longrightarrow> 16 \<le> x1"
    using b1 assms(1) by (auto simp: in_range_def a_def x1_def split: if_splits)
  have f4: "a = 4 \<longrightarrow> x1 < 16"
    using b1 assms(1) by (auto simp: in_range_def a_def x1_def split: if_splits)
  have c': "c = ((a * 64 + x1) * 64 + x2) * 64 + x3"
    by (simp add: c a_def x1_def x2_def x3_def cont_bits_def)
  have rng: "65536 \<le> c" "c < 1114112"
    unfolding c' using a x1 x2 x3 f0 f4 by (rule range4)+
  have dm: "c div 262144 = a" "c div 4096 mod 64 = x1" "c div 64 mod 64 = x2" "c mod 64 = x3"
    unfolding c' using x1 x2 x3 by (rule split4)+
  have "utf8_encode_char c =
          Some [of_nat (240 + a), of_nat (128 + x1), of_nat (128 + x2), of_nat (128 + x3)]"
    using rng by (simp add: utf8_encode_char_def dm)
  also have "\<dots> = Some [b0, b1, b2, b3]"
    by (simp only: n0 n1 n2 n3 of_nat_unat_byte)
  finally show ?thesis using r0 rng by simp
qed

subsection \<open>Encoding one scalar value, then decoding it\<close>

lemma encode1_next:
  assumes "c < 128"
  shows "utf8_next (of_nat c # rest) = Some (c, rest)"
proof -
  define B0 :: byte where "B0 = of_nat c"
  have "unat B0 = c" unfolding B0_def using assms by (intro unat_of_nat_byte) linarith
  then have "utf8_next (B0 # rest) = Some (c, rest)"
    using assms by (simp add: utf8_next_def)
  then show ?thesis unfolding B0_def .
qed

lemma encode2_next:
  assumes "128 \<le> c" "c < 2048"
  shows "utf8_next (of_nat (192 + c div 64) # of_nat (128 + c mod 64) # rest) = Some (c, rest)"
proof -
  define a where "a = c div 64"
  define x1 where "x1 = c mod 64"
  define B0 :: byte where "B0 = of_nat (192 + a)"
  define B1 :: byte where "B1 = of_nat (128 + x1)"
  have a: "2 \<le> a" "a < 32" using lead2[OF assms] by (simp_all add: a_def)
  have x1: "x1 < 64" by (simp add: x1_def)
  have u0: "unat B0 = 192 + a"
    unfolding B0_def using a by (intro unat_of_nat_byte) linarith
  have u1: "unat B1 = 128 + x1"
    unfolding B1_def using x1 by (intro unat_of_nat_byte) linarith
  have val: "a * 64 + x1 = c" unfolding a_def x1_def by (rule join2)
  have "utf8_next2 B0 (B1 # rest) = Some (c, rest)"
    using x1 val by (simp add: utf8_next2_def in_range_def cont_bits_def u0 u1)
  moreover have "in_range 0xC2 0xDF B0" "\<not> unat B0 < 128"
    unfolding in_range_def u0 using a by linarith+
  ultimately have "utf8_next (B0 # B1 # rest) = Some (c, rest)"
    by (simp add: utf8_next_def)
  then show ?thesis unfolding B0_def B1_def a_def x1_def .
qed

lemma encode3_next:
  assumes "2048 \<le> c" "c < 65536" "\<not> (55296 \<le> c \<and> c \<le> 57343)"
  shows "utf8_next (of_nat (224 + c div 4096) # of_nat (128 + c div 64 mod 64)
                    # of_nat (128 + c mod 64) # rest) = Some (c, rest)"
proof -
  define a where "a = c div 4096"
  define x1 where "x1 = c div 64 mod 64"
  define x2 where "x2 = c mod 64"
  define B0 :: byte where "B0 = of_nat (224 + a)"
  define B1 :: byte where "B1 = of_nat (128 + x1)"
  define B2 :: byte where "B2 = of_nat (128 + x2)"
  have a: "a < 16" using lead3[OF assms(2)] by (simp add: a_def)
  have x1: "x1 < 64" by (simp add: x1_def)
  have x2: "x2 < 64" by (simp add: x2_def)
  have u0: "unat B0 = 224 + a"
    unfolding B0_def using a by (intro unat_of_nat_byte) linarith
  have u1: "unat B1 = 128 + x1"
    unfolding B1_def using x1 by (intro unat_of_nat_byte) linarith
  have u2: "unat B2 = 128 + x2"
    unfolding B2_def using x2 by (intro unat_of_nat_byte) linarith
  have e0: "a = 0 \<Longrightarrow> 32 \<le> x1"
    unfolding a_def x1_def using second_E0[OF assms(1)] by simp
  have ed: "a = 13 \<Longrightarrow> x1 < 32"
  proof -
    assume h: "a = 13"
    have "c div 4096 < 14" using h by (simp add: a_def)
    then have "c < 57344" by (simp add: div_less_iff_less_mult)
    then have "c < 55296" using assms(3) by linarith
    then show ?thesis unfolding x1_def using h second_ED by (simp add: a_def)
  qed
  have val: "(a * 64 + x1) * 64 + x2 = c" unfolding a_def x1_def x2_def by (rule join3)
  have r1: "in_range (if unat B0 = 0xE0 then 0xA0 else 0x80)
                     (if unat B0 = 0xED then 0x9F else 0xBF) B1"
    unfolding in_range_def u0 u1 using e0 ed x1 by (cases "a = 0"; cases "a = 13"; simp)
  have r2: "in_range 0x80 0xBF B2"
    unfolding in_range_def u2 using x2 by linarith
  have cb: "cont_bits B1 = x1" "cont_bits B2 = x2" "unat B0 - 224 = a"
    unfolding cont_bits_def u0 u1 u2 by simp_all
  have "utf8_next3 B0 (B1 # B2 # rest) = Some (c, rest)"
    unfolding utf8_next3_def using r1 r2 val by (simp add: cb)
  moreover have "in_range 0xE0 0xEF B0" "\<not> unat B0 < 128" "\<not> in_range 0xC2 0xDF B0"
    unfolding in_range_def u0 using a by linarith+
  ultimately have "utf8_next (B0 # B1 # B2 # rest) = Some (c, rest)"
    by (simp add: utf8_next_def)
  then show ?thesis unfolding B0_def B1_def B2_def a_def x1_def x2_def .
qed

lemma encode4_next:
  assumes "65536 \<le> c" "c < 1114112"
  shows "utf8_next (of_nat (240 + c div 262144) # of_nat (128 + c div 4096 mod 64)
                    # of_nat (128 + c div 64 mod 64) # of_nat (128 + c mod 64) # rest)
           = Some (c, rest)"
proof -
  define a where "a = c div 262144"
  define x1 where "x1 = c div 4096 mod 64"
  define x2 where "x2 = c div 64 mod 64"
  define x3 where "x3 = c mod 64"
  define B0 :: byte where "B0 = of_nat (240 + a)"
  define B1 :: byte where "B1 = of_nat (128 + x1)"
  define B2 :: byte where "B2 = of_nat (128 + x2)"
  define B3 :: byte where "B3 = of_nat (128 + x3)"
  have a: "a < 5" using lead4[OF assms(2)] by (simp add: a_def)
  have x1: "x1 < 64" by (simp add: x1_def)
  have x2: "x2 < 64" by (simp add: x2_def)
  have x3: "x3 < 64" by (simp add: x3_def)
  have u0: "unat B0 = 240 + a"
    unfolding B0_def using a by (intro unat_of_nat_byte) linarith
  have u1: "unat B1 = 128 + x1"
    unfolding B1_def using x1 by (intro unat_of_nat_byte) linarith
  have u2: "unat B2 = 128 + x2"
    unfolding B2_def using x2 by (intro unat_of_nat_byte) linarith
  have u3: "unat B3 = 128 + x3"
    unfolding B3_def using x3 by (intro unat_of_nat_byte) linarith
  have f0: "a = 0 \<Longrightarrow> 16 \<le> x1"
    unfolding a_def x1_def using second_F0[OF assms(1)] by simp
  have f4: "a = 4 \<Longrightarrow> x1 < 16"
    unfolding a_def x1_def using second_F4[OF assms(2)] by simp
  have val: "((a * 64 + x1) * 64 + x2) * 64 + x3 = c"
    unfolding a_def x1_def x2_def x3_def by (rule join4)
  have r1: "in_range (if unat B0 = 0xF0 then 0x90 else 0x80)
                     (if unat B0 = 0xF4 then 0x8F else 0xBF) B1"
    unfolding in_range_def u0 u1 using f0 f4 x1 by (cases "a = 0"; cases "a = 4"; simp)
  have r2: "in_range 0x80 0xBF B2" "in_range 0x80 0xBF B3"
    unfolding in_range_def u2 u3 using x2 x3 by linarith+
  have cb: "cont_bits B1 = x1" "cont_bits B2 = x2" "cont_bits B3 = x3" "unat B0 - 240 = a"
    unfolding cont_bits_def u0 u1 u2 u3 by simp_all
  have "utf8_next4 B0 (B1 # B2 # B3 # rest) = Some (c, rest)"
    unfolding utf8_next4_def using r1 r2 val by (simp add: cb)
  moreover have "in_range 0xF0 0xF4 B0" "\<not> unat B0 < 128" "\<not> in_range 0xC2 0xDF B0"
    "\<not> in_range 0xE0 0xEF B0"
    unfolding in_range_def u0 using a by linarith+
  ultimately have "utf8_next (B0 # B1 # B2 # B3 # rest) = Some (c, rest)"
    by (simp add: utf8_next_def)
  then show ?thesis unfolding B0_def B1_def B2_def B3_def a_def x1_def x2_def x3_def .
qed

lemma utf8_encode_char_1: "c < 128 \<Longrightarrow> utf8_encode_char c = Some [of_nat c]"
  unfolding utf8_encode_char_def by simp

lemma utf8_encode_char_2:
  "128 \<le> c \<Longrightarrow> c < 2048 \<Longrightarrow>
   utf8_encode_char c = Some [of_nat (192 + c div 64), of_nat (128 + c mod 64)]"
  unfolding utf8_encode_char_def by simp

lemma utf8_encode_char_3:
  "2048 \<le> c \<Longrightarrow> c < 65536 \<Longrightarrow> \<not> (55296 \<le> c \<and> c \<le> 57343) \<Longrightarrow>
   utf8_encode_char c = Some [of_nat (224 + c div 4096), of_nat (128 + c div 64 mod 64),
                              of_nat (128 + c mod 64)]"
  unfolding utf8_encode_char_def by auto

lemma utf8_encode_char_4:
  "65536 \<le> c \<Longrightarrow> c < 1114112 \<Longrightarrow>
   utf8_encode_char c = Some [of_nat (240 + c div 262144), of_nat (128 + c div 4096 mod 64),
                              of_nat (128 + c div 64 mod 64), of_nat (128 + c mod 64)]"
  unfolding utf8_encode_char_def by simp

lemma utf8_encode_char_Some_cases:
  assumes "utf8_encode_char c = Some pre"
  obtains "c < 128" | "128 \<le> c" "c < 2048"
    | "2048 \<le> c" "c < 65536" "\<not> (55296 \<le> c \<and> c \<le> 57343)"
    | "65536 \<le> c" "c < 1114112"
  using assms unfolding utf8_encode_char_def by (auto split: if_splits)

lemma utf8_encode_char_next:
  assumes "utf8_encode_char c = Some pre"
  shows "utf8_next (pre @ rest) = Some (c, rest)"
  using assms
proof (cases rule: utf8_encode_char_Some_cases)
  case 1
  have "Some pre = Some [of_nat c]"
    using assms utf8_encode_char_1[OF 1] by (rule trans[OF sym])
  then have "pre = [of_nat c]" by (simp only: option.inject)
  then show ?thesis using encode1_next[OF 1] by (simp only: append_Cons append_Nil)
next
  case 2
  have "Some pre = Some [of_nat (192 + c div 64), of_nat (128 + c mod 64)]"
    using assms utf8_encode_char_2[OF 2] by (rule trans[OF sym])
  then have "pre = [of_nat (192 + c div 64), of_nat (128 + c mod 64)]"
    by (simp only: option.inject)
  then show ?thesis using encode2_next[OF 2] by (simp only: append_Cons append_Nil)
next
  case 3
  have "Some pre = Some [of_nat (224 + c div 4096), of_nat (128 + c div 64 mod 64),
                         of_nat (128 + c mod 64)]"
    using assms utf8_encode_char_3[OF 3] by (rule trans[OF sym])
  then have "pre = [of_nat (224 + c div 4096), of_nat (128 + c div 64 mod 64),
                    of_nat (128 + c mod 64)]"
    by (simp only: option.inject)
  then show ?thesis using encode3_next[OF 3] by (simp only: append_Cons append_Nil)
next
  case 4
  have "Some pre = Some [of_nat (240 + c div 262144), of_nat (128 + c div 4096 mod 64),
                         of_nat (128 + c div 64 mod 64), of_nat (128 + c mod 64)]"
    using assms utf8_encode_char_4[OF 4] by (rule trans[OF sym])
  then have "pre = [of_nat (240 + c div 262144), of_nat (128 + c div 4096 mod 64),
                    of_nat (128 + c div 64 mod 64), of_nat (128 + c mod 64)]"
    by (simp only: option.inject)
  then show ?thesis using encode4_next[OF 4] by (simp only: append_Cons append_Nil)
qed

subsection \<open>The bytes of an encoded scalar value\<close>

lemma unat_high:
  fixes k x :: nat
  assumes "128 \<le> k" "k + x < 256"
  shows "128 \<le> unat (of_nat (k + x) :: byte)"
proof -
  have "unat (of_nat (k + x) :: byte) = k + x" using assms(2) by (rule unat_of_nat_byte)
  then show ?thesis using assms(1) by linarith
qed

lemma cont_high: "128 \<le> unat (of_nat (128 + x mod 64) :: byte)"
proof -
  have "x mod 64 < 64" by simp
  then have "128 + x mod 64 < 256" by linarith
  then show ?thesis by (intro unat_high) simp_all
qed

lemma utf8_encode_char_high:
  assumes "utf8_encode_char c = Some pre" "128 \<le> c" "b \<in> set pre"
  shows "128 \<le> unat b"
  using assms(1)
proof (cases rule: utf8_encode_char_Some_cases)
  case 1
  then show ?thesis using assms(2) by simp
next
  case 2
  have "c div 64 < 32" using lead2[OF 2] by simp
  then have "192 + c div 64 < 256" by linarith
  then have "128 \<le> unat (of_nat (192 + c div 64) :: byte)" by (intro unat_high) simp_all
  moreover have "Some pre = Some [of_nat (192 + c div 64), of_nat (128 + c mod 64)]"
    using assms(1) utf8_encode_char_2[OF 2] by (rule trans[OF sym])
  then have "pre = [of_nat (192 + c div 64), of_nat (128 + c mod 64)]"
    by (simp only: option.inject)
  then have "b = of_nat (192 + c div 64) \<or> b = of_nat (128 + c mod 64)"
    using assms(3) by (simp only: set_simps insert_iff empty_iff) blast
  ultimately show ?thesis using cont_high[of c] by blast
next
  case 3
  have "c div 4096 < 16" using lead3[OF 3(2)] .
  then have "224 + c div 4096 < 256" by linarith
  then have "128 \<le> unat (of_nat (224 + c div 4096) :: byte)" by (intro unat_high) simp_all
  moreover have "Some pre = Some [of_nat (224 + c div 4096), of_nat (128 + c div 64 mod 64),
                         of_nat (128 + c mod 64)]"
    using assms(1) utf8_encode_char_3[OF 3] by (rule trans[OF sym])
  then have "pre = [of_nat (224 + c div 4096), of_nat (128 + c div 64 mod 64),
                    of_nat (128 + c mod 64)]"
    by (simp only: option.inject)
  then have "b = of_nat (224 + c div 4096) \<or> b = of_nat (128 + c div 64 mod 64)
             \<or> b = of_nat (128 + c mod 64)"
    using assms(3) by (simp only: set_simps insert_iff empty_iff) blast
  ultimately show ?thesis using cont_high[of c] cont_high[of "c div 64"] by blast
next
  case 4
  have "c div 262144 < 5" using lead4[OF 4(2)] .
  then have "240 + c div 262144 < 256" by linarith
  then have "128 \<le> unat (of_nat (240 + c div 262144) :: byte)" by (intro unat_high) simp_all
  moreover have "Some pre = Some [of_nat (240 + c div 262144), of_nat (128 + c div 4096 mod 64),
                         of_nat (128 + c div 64 mod 64), of_nat (128 + c mod 64)]"
    using assms(1) utf8_encode_char_4[OF 4] by (rule trans[OF sym])
  then have "pre = [of_nat (240 + c div 262144), of_nat (128 + c div 4096 mod 64),
                    of_nat (128 + c div 64 mod 64), of_nat (128 + c mod 64)]"
    by (simp only: option.inject)
  then have "b = of_nat (240 + c div 262144) \<or> b = of_nat (128 + c div 4096 mod 64)
             \<or> b = of_nat (128 + c div 64 mod 64) \<or> b = of_nat (128 + c mod 64)"
    using assms(3) by (simp only: set_simps insert_iff empty_iff) blast
  ultimately show ?thesis
    using cont_high[of c] cont_high[of "c div 64"] cont_high[of "c div 4096"] by blast
qed

lemma utf8_encode_char_nonempty: "utf8_encode_char c = Some pre \<Longrightarrow> pre \<noteq> []"
  unfolding utf8_encode_char_def by (auto split: if_splits)

lemma utf8_encode_char_low:
  assumes "utf8_encode_char c = Some pre" "c < 128"
  shows "\<exists>b. pre = [b] \<and> unat b = c"
proof -
  have "Some pre = Some [of_nat c]"
    using assms(1) utf8_encode_char_1[OF assms(2)] by (rule trans[OF sym])
  then have "pre = [of_nat c]" by (simp only: option.inject)
  moreover have "unat (of_nat c :: byte) = c"
    using assms(2) by (intro unat_of_nat_byte) linarith
  ultimately show ?thesis by blast
qed

subsection \<open>Whole texts\<close>

lemma utf8_next_encode:
  assumes "utf8_next bs = Some (c, rest)"
  shows "\<exists>pre. utf8_encode_char c = Some pre \<and> bs = pre @ rest"
proof (cases bs)
  case Nil
  then show ?thesis using assms by (simp add: utf8_next_def)
next
  case (Cons b0 r0)
  consider "unat b0 < 128"
    | "\<not> unat b0 < 128" "in_range 0xC2 0xDF b0"
    | "\<not> unat b0 < 128" "\<not> in_range 0xC2 0xDF b0" "in_range 0xE0 0xEF b0"
    | "\<not> unat b0 < 128" "\<not> in_range 0xC2 0xDF b0" "\<not> in_range 0xE0 0xEF b0"
      "in_range 0xF0 0xF4 b0"
    | "\<not> unat b0 < 128" "\<not> in_range 0xC2 0xDF b0" "\<not> in_range 0xE0 0xEF b0"
      "\<not> in_range 0xF0 0xF4 b0"
    by blast
  then show ?thesis
  proof cases
    case 1
    then have c: "c = unat b0" and r: "rest = r0"
      using assms Cons by (simp_all add: utf8_next_def)
    have "utf8_encode_char c = Some [of_nat (unat b0)]"
      using 1 unfolding c by (rule utf8_encode_char_1)
    then have "utf8_encode_char c = Some [b0]" by (simp only: of_nat_unat_byte)
    then show ?thesis using Cons r by simp
  next
    case 2
    then have "utf8_next2 b0 r0 = Some (c, rest)"
      using assms Cons by (simp add: utf8_next_def)
    from next2_encode[OF 2(2) this] show ?thesis using Cons by auto
  next
    case 3
    then have "utf8_next3 b0 r0 = Some (c, rest)"
      using assms Cons by (simp add: utf8_next_def)
    from next3_encode[OF 3(3) this] show ?thesis using Cons by auto
  next
    case 4
    then have "utf8_next4 b0 r0 = Some (c, rest)"
      using assms Cons by (simp add: utf8_next_def)
    from next4_encode[OF 4(4) this] show ?thesis using Cons by auto
  next
    case 5
    then show ?thesis using assms Cons by (simp add: utf8_next_def)
  qed
qed

lemma utf8_decode_Nil [simp]: "utf8_decode [] = Some []"
  by (simp add: utf8_decode.simps)

lemma utf8_decode_step:
  "utf8_next bs = Some (c, rest) \<Longrightarrow> utf8_decode bs = map_option ((#) c) (utf8_decode rest)"
  by (subst utf8_decode.simps) (auto simp: utf8_next_def)

lemma utf8_decode_fail:
  "bs \<noteq> [] \<Longrightarrow> utf8_next bs = None \<Longrightarrow> utf8_decode bs = None"
  by (subst utf8_decode.simps) simp

lemma utf8_decode_encode:
  "utf8_decode bs = Some cps \<Longrightarrow> utf8_encode cps = Some bs"
proof (induction bs arbitrary: cps rule: utf8_decode.induct)
  case (1 bs)
  show ?case
  proof (cases "bs = []")
    case True
    then show ?thesis using "1.prems" by simp
  next
    case False
    show ?thesis
    proof (cases "utf8_next bs")
      case None
      then show ?thesis using "1.prems" utf8_decode_fail[OF False] by simp
    next
      case (Some x)
      obtain c rest where x: "x = (c, rest)" by (cases x)
      have nx: "utf8_next bs = Some (c, rest)" using Some x by simp
      from "1.prems" obtain ds where ds: "utf8_decode rest = Some ds" and cps: "cps = c # ds"
        unfolding utf8_decode_step[OF nx] by auto
      have ih: "utf8_encode ds = Some rest"
        using "1.IH"[OF False nx refl ds] .
      from utf8_next_encode[OF nx] obtain pre where
        pre: "utf8_encode_char c = Some pre" "bs = pre @ rest" by blast
      show ?thesis by (simp add: cps pre ih)
    qed
  qed
qed

lemma utf8_encode_decode:
  "utf8_encode cps = Some bs \<Longrightarrow> utf8_decode bs = Some cps"
proof (induction cps arbitrary: bs)
  case Nil
  then show ?case by simp
next
  case (Cons c cps)
  from Cons.prems obtain pre rest where pre: "utf8_encode_char c = Some pre"
    and rest: "utf8_encode cps = Some rest" and bs: "bs = pre @ rest"
    by (auto split: option.splits)
  have "utf8_next (pre @ rest) = Some (c, rest)" using pre by (rule utf8_encode_char_next)
  then have "utf8_decode (pre @ rest) = map_option ((#) c) (utf8_decode rest)"
    by (rule utf8_decode_step)
  then show ?case using Cons.IH[OF rest] bs by simp
qed

lemma utf8_encode_Some_iff:
  "(\<exists>bs. utf8_encode cps = Some bs) \<longleftrightarrow> (\<forall>c\<in>set cps. utf8_encode_char c \<noteq> None)"
  by (induction cps) (auto split: option.splits)

lemma utf8_encode_subset:
  assumes "utf8_encode cps = Some bs" "set ds \<subseteq> set cps"
  shows "\<exists>bs'. utf8_encode ds = Some bs'"
  using assms unfolding utf8_encode_Some_iff
  by (metis assms(1) subsetD utf8_encode_Some_iff)

lemma utf8_encode_low_byte:
  "utf8_encode cps = Some bs \<Longrightarrow> b \<in> set bs \<Longrightarrow> unat b < 128 \<Longrightarrow> unat b \<in> set cps"
proof (induction cps arbitrary: bs)
  case Nil
  then show ?case by simp
next
  case (Cons c cps)
  from Cons.prems(1) obtain pre rest where pre: "utf8_encode_char c = Some pre"
    and rest: "utf8_encode cps = Some rest" and bs: "bs = pre @ rest"
    by (auto split: option.splits)
  show ?case
  proof (cases "b \<in> set pre")
    case True
    have "c < 128"
    proof (rule ccontr)
      assume "\<not> c < 128"
      then have "128 \<le> unat b" using utf8_encode_char_high[OF pre _ True] by simp
      then show False using Cons.prems(3) by simp
    qed
    from utf8_encode_char_low[OF pre this] True show ?thesis by auto
  next
    case False
    then have "b \<in> set rest" using Cons.prems(2) bs by simp
    from Cons.IH[OF rest this Cons.prems(3)] show ?thesis by simp
  qed
qed

lemma utf8_encode_low_char:
  "utf8_encode cps = Some bs \<Longrightarrow> c \<in> set cps \<Longrightarrow> c < 128 \<Longrightarrow> \<exists>b\<in>set bs. unat b = c"
proof (induction cps arbitrary: bs)
  case Nil
  then show ?case by simp
next
  case (Cons d cps)
  from Cons.prems(1) obtain pre rest where pre: "utf8_encode_char d = Some pre"
    and rest: "utf8_encode cps = Some rest" and bs: "bs = pre @ rest"
    by (auto split: option.splits)
  show ?case
  proof (cases "c = d")
    case True
    from utf8_encode_char_low[OF pre] Cons.prems(3) True bs show ?thesis by auto
  next
    case False
    then have "c \<in> set cps" using Cons.prems(2) by simp
    from Cons.IH[OF rest this Cons.prems(3)] bs show ?thesis by auto
  qed
qed

section \<open>The cleaned text\<close>

text \<open>
  The assembled text, computed in one pass: \<open>cur\<close> holds the characters of the current
  line that have been read.
\<close>

abbreviation rstrip_ws :: "pystr \<Rightarrow> pystr" where
  "rstrip_ws \<equiv> rstrip [0x20, 0x09, 0x0D, 0x0A]"

fun clean_from :: "pystr \<Rightarrow> pystr \<Rightarrow> pystr" where
  "clean_from cur [] = rstrip_ws cur"
| "clean_from cur (c # cs) =
     (if c = 0x0D then
        (case cs of
           [] \<Rightarrow> rstrip_ws cur @ clean_from [] cs
         | d # r \<Rightarrow>
             if d = 0x0A then rstrip_ws cur @ [0x0A] @ clean_from [] r
             else rstrip_ws cur @ clean_from [] cs)
      else if c = 0x0A then rstrip_ws cur @ [0x0A] @ clean_from [] cs
      else if is_linebreak c then cur @ [c] @ clean_from [] cs
      else clean_from (cur @ [c]) cs)"

definition nobreak :: "pystr \<Rightarrow> bool" where
  "nobreak s \<longleftrightarrow> (\<forall>c\<in>set s. \<not> is_linebreak c)"

lemma nobreak_simps [simp]:
  "nobreak []" "nobreak (s @ t) \<longleftrightarrow> nobreak s \<and> nobreak t"
  "nobreak (c # s) \<longleftrightarrow> \<not> is_linebreak c \<and> nobreak s"
  by (auto simp: nobreak_def)

lemma is_linebreak_CR_LF [simp]: "is_linebreak 13" "is_linebreak 10"
  by (simp_all add: is_linebreak_def)

lemma rstrip_Nil [simp]: "rstrip chars [] = []"
  by (simp add: rstrip_def)

lemma rstrip_snoc:
  "rstrip chars (s @ [c]) = (if c \<in> set chars then rstrip chars s else s @ [c])"
  by (simp add: rstrip_def)

lemma rstrip_append:
  "rstrip chars (a @ b) = (if rstrip chars b = [] then rstrip chars a else a @ rstrip chars b)"
  by (induction b rule: rev_induct) (simp_all add: rstrip_snoc flip: append_assoc)

lemma rstrip_idem [simp]: "rstrip chars (rstrip chars s) = rstrip chars s"
  by (induction s rule: rev_induct) (simp_all add: rstrip_snoc)

lemma set_rstrip: "set (rstrip chars s) \<subseteq> set s"
  by (induction s rule: rev_induct) (auto simp: rstrip_snoc)

lemma nobreak_rstrip: "nobreak s \<Longrightarrow> nobreak (rstrip chars s)"
  using set_rstrip[of chars s] by (auto simp: nobreak_def)

lemma endswith_snoc: "endswith (s @ [c]) [d] \<longleftrightarrow> c = d"
  by (simp add: endswith_def suffix_def)

lemma endswith_nobreak: "nobreak s \<Longrightarrow> \<not> endswith s [10]"
  by (auto simp: endswith_def suffix_def nobreak_def)

lemma clean_line_LF: "clean_line (cur @ [10]) = rstrip_ws cur @ [10]"
  by (simp add: clean_line_def endswith_snoc rstrip_snoc)

lemma clean_line_CRLF: "clean_line (cur @ [13, 10]) = rstrip_ws cur @ [10]"
  using endswith_snoc[of "cur @ [13]" 10 10] rstrip_snoc[of _ "cur @ [13]" 10]
  by (simp add: clean_line_def rstrip_snoc)

lemma clean_line_CR: "clean_line (cur @ [13]) = rstrip_ws cur"
  by (simp add: clean_line_def endswith_snoc rstrip_snoc)

lemma clean_line_other:
  "is_linebreak c \<Longrightarrow> c \<noteq> 13 \<Longrightarrow> c \<noteq> 10 \<Longrightarrow> clean_line (cur @ [c]) = cur @ [c]"
  by (auto simp: clean_line_def endswith_snoc rstrip_snoc is_linebreak_def)

lemma clean_line_nobreak: "nobreak cur \<Longrightarrow> clean_line cur = rstrip_ws cur"
  by (simp add: clean_line_def endswith_nobreak)

lemma concat_clean_lines:
  "nobreak cur \<Longrightarrow> concat (map clean_line (splitlines_from True cur s)) = clean_from cur s"
proof (induction cur s rule: clean_from.induct)
  case (1 cur)
  then show ?case by (simp add: clean_line_nobreak)
next
  case (2 cur c cs)
  show ?case
  proof (cases "c = 13")
    case True
    then show ?thesis using 2
      by (cases cs) (simp_all add: clean_line_CR clean_line_CRLF)
  next
    case nCR: False
    show ?thesis
    proof (cases "c = 10")
      case True
      then show ?thesis using 2 by (simp add: clean_line_LF)
    next
      case nLF: False
      show ?thesis
      proof (cases "is_linebreak c")
        case True
        then show ?thesis using 2 nCR nLF by (simp add: clean_line_other)
      next
        case False
        then show ?thesis using 2 nCR nLF by simp
      qed
    qed
  qed
qed

lemma clean_text_eq: "clean_text s = clean_from [] s"
  by (simp add: clean_text_def splitlines_def concat_clean_lines)

lemma clean_from_shift:
  "nobreak b \<Longrightarrow> clean_from a (b @ s) = clean_from (a @ b) s"
proof (induction b arbitrary: a)
  case Nil
  then show ?case by simp
next
  case (Cons c b)
  then have "\<not> is_linebreak c" "nobreak b" by simp_all
  moreover from this have "c \<noteq> 13" "c \<noteq> 10" by auto
  ultimately show ?case using Cons.IH[of "a @ [c]"] by simp
qed

lemma clean_from_fixed:
  "nobreak cur \<Longrightarrow> nobreak a \<Longrightarrow> rstrip_ws a = a \<Longrightarrow>
   clean_from a (clean_from cur s) = a @ clean_from cur s"
proof (induction cur s arbitrary: a rule: clean_from.induct)
  case (1 cur)
  have "clean_from a (rstrip_ws cur @ []) = clean_from (a @ rstrip_ws cur) []"
    using 1 by (intro clean_from_shift nobreak_rstrip)
  then show ?case using 1 by (simp add: rstrip_append)
next
  case (2 cur c cs)
  have nb: "nobreak (rstrip_ws cur)" using 2 by (intro nobreak_rstrip)
  have fx: "rstrip_ws (a @ rstrip_ws cur) = a @ rstrip_ws cur"
    using 2 by (simp add: rstrip_append)
  have nba: "nobreak (a @ rstrip_ws cur)" using nb 2 by simp
  show ?case
  proof (cases "c = 13")
    case True
    show ?thesis
    proof (cases cs)
      case Nil
      then show ?thesis using True 2 nb fx
        by (simp add: clean_from_shift[of "rstrip_ws cur" a "[]", simplified])
    next
      case (Cons d r)
      show ?thesis
      proof (cases "d = 10")
        case dLF: True
        have "clean_from a (rstrip_ws cur @ 10 # clean_from [] r)
                = clean_from (a @ rstrip_ws cur) (10 # clean_from [] r)"
          using nb by (rule clean_from_shift)
        then show ?thesis using True Cons dLF 2 fx by simp
      next
        case False
        have "clean_from a (rstrip_ws cur @ clean_from [] cs)
                = clean_from (a @ rstrip_ws cur) (clean_from [] cs)"
          using nb by (rule clean_from_shift)
        then show ?thesis using True Cons False 2 fx nba by simp
      qed
    qed
  next
    case nCR: False
    show ?thesis
    proof (cases "c = 10")
      case True
      have "clean_from a (rstrip_ws cur @ 10 # clean_from [] cs)
              = clean_from (a @ rstrip_ws cur) (10 # clean_from [] cs)"
        using nb by (rule clean_from_shift)
      then show ?thesis using True 2 fx by simp
    next
      case nLF: False
      show ?thesis
      proof (cases "is_linebreak c")
        case True
        have "clean_from a (cur @ c # clean_from [] cs)
                = clean_from (a @ cur) (c # clean_from [] cs)"
          using 2 by (intro clean_from_shift)
        then show ?thesis using True nCR nLF 2 by simp
      next
        case False
        then show ?thesis using nCR nLF 2 by simp
      qed
    qed
  qed
qed

lemma clean_text_idem: "clean_text (clean_text s) = clean_text s"
  using clean_from_fixed[of "[]" "[]" s] by (simp add: clean_text_eq)

lemma set_clean_from: "set (clean_from cur s) \<subseteq> set cur \<union> set s"
proof (induction cur s rule: clean_from.induct)
  case (1 cur)
  then show ?case using set_rstrip[of _ cur] by simp
next
  case (2 cur c cs)
  have r: "set (rstrip_ws cur) \<subseteq> set cur" by (rule set_rstrip)
  show ?case
  proof (cases "c = 13")
    case True
    then show ?thesis using 2 r by (cases cs) (auto split: if_splits)
  next
    case False
    then show ?thesis using 2 r by (auto split: if_splits)
  qed
qed

lemma set_clean_text: "set (clean_text s) \<subseteq> set s"
  using set_clean_from[of "[]" s] by (simp add: clean_text_eq)

lemma CR_notin_nobreak: "nobreak s \<Longrightarrow> 13 \<notin> set s"
  by (auto simp: nobreak_def)

lemma CR_notin_clean_from: "nobreak cur \<Longrightarrow> 13 \<notin> set (clean_from cur s)"
proof (induction cur s rule: clean_from.induct)
  case (1 cur)
  then show ?case using CR_notin_nobreak[OF nobreak_rstrip[of cur]] by simp
next
  case (2 cur c cs)
  have r: "13 \<notin> set (rstrip_ws cur)" "13 \<notin> set cur"
    using 2 CR_notin_nobreak nobreak_rstrip by blast+
  show ?case
  proof (cases "c = 13")
    case True
    then show ?thesis using 2 r by (cases cs) (auto split: if_splits)
  next
    case False
    then show ?thesis using 2 r by (auto split: if_splits)
  qed
qed

lemma CR_notin_clean_text: "13 \<notin> set (clean_text s)"
  using CR_notin_clean_from[of "[]" s] by (simp add: clean_text_eq)

lemma clean_from_ends_LF:
  "s \<noteq> [] \<Longrightarrow> last s = 10 \<Longrightarrow> clean_from cur s \<noteq> [] \<and> last (clean_from cur s) = 10"
proof (induction cur s rule: clean_from.induct)
  case (1 cur)
  then show ?case by simp
next
  case (2 cur c cs)
  show ?case
  proof (cases "cs = []")
    case True
    then show ?thesis using 2 by simp
  next
    case False
    then have l: "last cs = 10" using "2.prems" by simp
    show ?thesis
    proof (cases "c = 13")
      case True
      obtain d r where cs: "cs = d # r" using False by (cases cs) auto
      show ?thesis
      proof (cases "d = 10")
        case dLF: True
        show ?thesis
        proof (cases "r = []")
          case True
          then show ?thesis using \<open>c = 13\<close> cs dLF by simp
        next
          case rne: False
          then have "last r = 10" using l cs by simp
          then show ?thesis
            using "2.IH" \<open>c = 13\<close> cs dLF rne by simp
        qed
      next
        case dn: False
        show ?thesis
          using "2.IH" \<open>c = 13\<close> cs dn False l by simp
      qed
    next
      case nCR: False
      show ?thesis
      proof (cases "c = 10")
        case True
        show ?thesis using "2.IH" nCR True False l by simp
      next
        case nLF: False
        show ?thesis
        proof (cases "is_linebreak c")
          case True
          show ?thesis using "2.IH" nCR nLF True False l by simp
        next
          case nb: False
          show ?thesis using "2.IH" nCR nLF nb False l by simp
        qed
      qed
    qed
  qed
qed

lemma clean_text_ends_LF:
  "s \<noteq> [] \<Longrightarrow> last s = 10 \<Longrightarrow> clean_text s \<noteq> [] \<and> last (clean_text s) = 10"
  unfolding clean_text_eq by (rule clean_from_ends_LF)

subsection \<open>Texts that cleaning leaves alone\<close>

fun ends_clean :: "bool \<Rightarrow> nat list \<Rightarrow> bool" where
  "ends_clean p [] = (\<not> p)"
| "ends_clean p (x # xs) = (\<not> (p \<and> x = 10) \<and> ends_clean (x = 32 \<or> x = 9) xs)"

lemma byte_eq_unat:
  "(b::byte) = 0x20 \<longleftrightarrow> unat b = 32" "(b::byte) = 0x09 \<longleftrightarrow> unat b = 9"
  "(b::byte) = 0x0A \<longleftrightarrow> unat b = 10" "(b::byte) = 0x0D \<longleftrightarrow> unat b = 13"
  by (simp_all add: word_unat_eq_iff)

lemma ends_clean_bytes:
  "ends_clean p (map unat bs) =
     (case bs of [] \<Rightarrow> \<not> p | b # r \<Rightarrow> \<not> (p \<and> b = 0x0A) \<and> no_trailing_whitespace bs)"
proof (induction bs arbitrary: p rule: no_trailing_whitespace.induct)
  case 1
  then show ?case by simp
next
  case (2 b)
  then show ?case by (simp add: byte_eq_unat)
next
  case (3 b b' bs)
  show ?case using 3[of "unat b = 32 \<or> unat b = 9"] by (simp add: byte_eq_unat)
qed

lemma no_trailing_whitespace_ends_clean:
  "no_trailing_whitespace bs \<longleftrightarrow> ends_clean False (map unat bs)"
  by (simp add: ends_clean_bytes split: list.splits)

lemma ends_clean_high:
  "xs \<noteq> [] \<Longrightarrow> \<forall>x\<in>set xs. 128 \<le> x \<Longrightarrow> ends_clean p (xs @ ys) = ends_clean False ys"
proof (induction xs arbitrary: p)
  case Nil
  then show ?case by simp
next
  case (Cons x xs)
  then have x: "x \<noteq> 10" "x \<noteq> 32" "x \<noteq> 9" by auto
  show ?case
  proof (cases "xs = []")
    case True
    then show ?thesis using x by simp
  next
    case False
    then show ?thesis using Cons x by simp
  qed
qed

lemma ends_clean_encode:
  "utf8_encode cps = Some bs \<Longrightarrow> ends_clean p (map unat bs) = ends_clean p cps"
proof (induction cps arbitrary: bs p)
  case Nil
  then show ?case by simp
next
  case (Cons c cps)
  from Cons.prems(1) obtain pre rest where pre: "utf8_encode_char c = Some pre"
    and rest: "utf8_encode cps = Some rest" and bs: "bs = pre @ rest"
    by (auto split: option.splits)
  show ?case
  proof (cases "c < 128")
    case True
    from utf8_encode_char_low[OF pre True] obtain b where "pre = [b]" "unat b = c" by blast
    then show ?thesis using Cons.IH[OF rest] bs by simp
  next
    case False
    then have hi: "\<forall>x\<in>set (map unat pre). 128 \<le> x"
      using utf8_encode_char_high[OF pre] by auto
    have ne: "map unat pre \<noteq> []" using utf8_encode_char_nonempty[OF pre] by simp
    have "ends_clean p (map unat pre @ map unat rest) = ends_clean False (map unat rest)"
      using ne hi by (rule ends_clean_high)
    moreover have "c \<noteq> 10" "c \<noteq> 32" "c \<noteq> 9" using False by auto
    ultimately show ?thesis using Cons.IH[OF rest] bs by simp
  qed
qed

lemma rstrip_id: "s = [] \<or> last s \<notin> set chars \<Longrightarrow> rstrip chars s = s"
  by (cases s rule: rev_cases) (simp_all add: rstrip_snoc)

lemma last_nobreak: "nobreak s \<Longrightarrow> s \<noteq> [] \<Longrightarrow> last s \<noteq> 13 \<and> last s \<noteq> 10"
  by (cases s rule: rev_cases) auto

lemma clean_from_unchanged:
  "13 \<notin> set s \<Longrightarrow> nobreak cur \<Longrightarrow>
   ends_clean (cur \<noteq> [] \<and> (last cur = 32 \<or> last cur = 9)) s \<Longrightarrow>
   clean_from cur s = cur @ s"
proof (induction cur s rule: clean_from.induct)
  case (1 cur)
  then have "cur = [] \<or> last cur \<notin> set [32, 9, 13, 10]"
    using last_nobreak[of cur] by auto
  then show ?case by (simp add: rstrip_id)
next
  case (2 cur c cs)
  have nCR: "c \<noteq> 13" using "2.prems"(1) by auto
  have cs: "13 \<notin> set cs" using "2.prems"(1) by auto
  show ?case
  proof (cases "c = 10")
    case True
    then have "cur = [] \<or> last cur \<notin> set [32, 9, 13, 10]"
      using "2.prems" last_nobreak[of cur] by auto
    then have "rstrip_ws cur = cur" by (rule rstrip_id)
    moreover have "clean_from [] cs = [] @ cs"
      using "2.IH" nCR True cs "2.prems" by simp
    ultimately show ?thesis using nCR True by simp
  next
    case nLF: False
    show ?thesis
    proof (cases "is_linebreak c")
      case True
      then have "c \<noteq> 32" "c \<noteq> 9" by (auto simp: is_linebreak_def)
      then have "clean_from [] cs = [] @ cs"
        using "2.IH" nCR nLF True cs "2.prems" by simp
      then show ?thesis using nCR nLF True by simp
    next
      case False
      have "clean_from (cur @ [c]) cs = (cur @ [c]) @ cs"
        using "2.IH" nCR nLF False cs "2.prems" by simp
      then show ?thesis using nCR nLF False by simp
    qed
  qed
qed

lemma clean_text_unchanged:
  "13 \<notin> set s \<Longrightarrow> ends_clean False s \<Longrightarrow> clean_text s = s"
  using clean_from_unchanged[of s "[]"] by (simp add: clean_text_eq)

lemma clean_from_last_kept:
  "nobreak cur \<Longrightarrow> cur @ s \<noteq> [] \<Longrightarrow> last (cur @ s) \<notin> set [32, 9, 13, 10] \<Longrightarrow>
   clean_from cur s \<noteq> [] \<and> last (clean_from cur s) = last (cur @ s)"
proof (induction cur s rule: clean_from.induct)
  case (1 cur)
  then have "rstrip_ws cur = cur" by (intro rstrip_id) simp
  then show ?case using 1 by simp
next
  case (2 cur c cs)
  show ?case
  proof (cases "cs = []")
    case True
    then have c: "c \<noteq> 13" "c \<noteq> 10" "c \<noteq> 32" "c \<noteq> 9" using "2.prems" by auto
    show ?thesis
    proof (cases "is_linebreak c")
      case True
      then show ?thesis using c \<open>cs = []\<close> by simp
    next
      case False
      have "rstrip_ws (cur @ [c]) = cur @ [c]" using c by (simp add: rstrip_snoc)
      then show ?thesis using c False \<open>cs = []\<close> by simp
    qed
  next
    case False
    then have l: "last cs \<notin> set [32, 9, 13, 10]" "last (cur @ c # cs) = last cs"
      using "2.prems" by simp_all
    show ?thesis
    proof (cases "c = 13")
      case True
      obtain d r where cs: "cs = d # r" using False by (cases cs) auto
      show ?thesis
      proof (cases "d = 10")
        case dLF: True
        then have "r \<noteq> []" using l cs by auto
        then show ?thesis using "2.IH" True cs dLF l by simp
      next
        case dn: False
        show ?thesis using "2.IH" True cs dn False l by simp
      qed
    next
      case nCR: False
      show ?thesis
      proof (cases "c = 10")
        case True
        show ?thesis using "2.IH" nCR True False l by simp
      next
        case nLF: False
        show ?thesis
        proof (cases "is_linebreak c")
          case True
          show ?thesis using "2.IH" nCR nLF True False l by simp
        next
          case nb: False
          show ?thesis using "2.IH" nCR nLF nb False l "2.prems"(1) by simp
        qed
      qed
    qed
  qed
qed

lemma clean_text_last_kept:
  "s \<noteq> [] \<Longrightarrow> last s \<notin> set [32, 9, 13, 10] \<Longrightarrow>
   clean_text s \<noteq> [] \<and> last (clean_text s) = last s"
  using clean_from_last_kept[of "[]" s] by (simp add: clean_text_eq)

subsection \<open>Properties decided by the ASCII part of a text\<close>

lemma fold_high:
  assumes "\<And>x s. 128 \<le> x \<Longrightarrow> g x s = h s" "\<And>s. h (h s) = h s"
  shows "xs \<noteq> [] \<Longrightarrow> \<forall>x\<in>set xs. (128::nat) \<le> x \<Longrightarrow> fold g xs s = h s"
proof (induction xs arbitrary: s)
  case Nil
  then show ?case by simp
next
  case (Cons x xs)
  show ?case
  proof (cases "xs = []")
    case True
    then show ?thesis using Cons.prems assms(1) by simp
  next
    case False
    then have "fold g xs (g x s) = h (g x s)" using Cons by simp
    then show ?thesis using Cons.prems assms by simp
  qed
qed

lemma fold_encode:
  assumes "\<And>x s. 128 \<le> x \<Longrightarrow> g x s = h s" "\<And>s. h (h s) = h s"
  shows "utf8_encode cps = Some bs \<Longrightarrow> fold g (map unat bs) s = fold g cps s"
proof (induction cps arbitrary: bs s)
  case Nil
  then show ?case by simp
next
  case (Cons c cps)
  from Cons.prems(1) obtain pre rest where pre: "utf8_encode_char c = Some pre"
    and rest: "utf8_encode cps = Some rest" and bs: "bs = pre @ rest"
    by (auto split: option.splits)
  show ?case
  proof (cases "c < 128")
    case True
    from utf8_encode_char_low[OF pre True] obtain b where "pre = [b]" "unat b = c" by blast
    then show ?thesis using Cons.IH[OF rest] bs by simp
  next
    case False
    then have hi: "\<forall>x\<in>set (map unat pre). 128 \<le> x"
      using utf8_encode_char_high[OF pre] by auto
    have ne: "map unat pre \<noteq> []" using utf8_encode_char_nonempty[OF pre] by simp
    have "fold g (map unat pre) s = h s" using assms ne hi by (rule fold_high)
    moreover have "g c s = h s" using False assms(1) by simp
    ultimately show ?thesis using Cons.IH[OF rest] bs by simp
  qed
qed

definition ends10 :: "nat list \<Rightarrow> bool" where
  "ends10 xs \<longleftrightarrow> xs \<noteq> [] \<and> last xs = 10"

lemma ends10_simps [simp]:
  "\<not> ends10 []"
  "ends10 (x # xs) \<longleftrightarrow> (if xs = [] then x = 10 else ends10 xs)"
  "ends10 (xs @ ys) \<longleftrightarrow> (if ys = [] then ends10 xs else ends10 ys)"
  by (simp_all add: ends10_def)

lemma ends10_fold: "ends10 xs = fold (\<lambda>x s. x = 10) xs False"
  by (induction xs rule: rev_induct) simp_all

lemma ends_with_LF_unat: "ends_with_LF bs \<longleftrightarrow> ends10 (map unat bs)"
  by (cases bs rule: rev_cases) (simp_all add: ends_with_LF_def byte_eq_unat)

lemma ends10_encode: "utf8_encode cps = Some bs \<Longrightarrow> ends_with_LF bs = ends10 cps"
  unfolding ends_with_LF_unat ends10_fold
  by (rule fold_encode[where h = "\<lambda>s. False"]) simp_all

text \<open>
  Whether the last character other than a space, a tab or a carriage return is a line
  feed; \<open>acc\<close> is the answer for the characters read so far.
\<close>

fun last_visible_LF :: "bool \<Rightarrow> nat list \<Rightarrow> bool" where
  "last_visible_LF acc [] = acc"
| "last_visible_LF acc (x # xs) =
     last_visible_LF (if x = 32 \<or> x = 9 \<or> x = 13 then acc else x = 10) xs"

lemma last_visible_LF_fold:
  "last_visible_LF acc xs = fold (\<lambda>x s. if x = 32 \<or> x = 9 \<or> x = 13 then s else x = 10) xs acc"
  by (induction xs arbitrary: acc) simp_all

lemma last_visible_LF_snoc:
  "last_visible_LF acc (xs @ [x]) =
     (if x = 32 \<or> x = 9 \<or> x = 13 then last_visible_LF acc xs else x = 10)"
  by (induction xs arbitrary: acc) simp_all

lemma last_visible_LF_encode:
  "utf8_encode cps = Some bs \<Longrightarrow> last_visible_LF acc (map unat bs) = last_visible_LF acc cps"
  unfolding last_visible_LF_fold
  by (rule fold_encode[where h = "\<lambda>s. False"]) auto

lemma last_visible_LF_rstrip:
  "ends_with_LF (rstrip [0x20, 0x09, 0x0D] bs) = last_visible_LF False (map unat bs)"
proof (induction bs rule: rev_induct)
  case Nil
  then show ?case by (simp add: ends_with_LF_def)
next
  case (snoc b bs)
  show ?case
  proof (cases "b = 0x20 \<or> b = 0x09 \<or> b = 0x0D")
    case True
    then show ?thesis using snoc by (auto simp: rstrip_snoc last_visible_LF_snoc byte_eq_unat)
  next
    case False
    then show ?thesis
      by (simp add: rstrip_snoc last_visible_LF_snoc byte_eq_unat ends_with_LF_def)
  qed
qed

lemma last_visible_LF_replace_crlf:
  "last_visible_LF acc (map unat (replace_crlf bs)) = last_visible_LF acc (map unat bs)"
proof (induction bs arbitrary: acc rule: replace_crlf.induct)
  case 1
  then show ?case by simp
next
  case (2 b bs)
  show ?case
  proof (cases "b = 0x0D")
    case True
    show ?thesis
    proof (cases bs)
      case Nil
      then show ?thesis using True by (simp add: byte_eq_unat)
    next
      case (Cons b' r)
      then show ?thesis using True 2 by (cases "b' = 0x0A") (simp_all add: byte_eq_unat)
    qed
  next
    case False
    then show ?thesis using 2 by simp
  qed
qed

lemma clean_from_last_visible:
  "nobreak cur \<Longrightarrow>
   ends10 (P @ clean_from cur s) = last_visible_LF (ends10 (P @ rstrip_ws cur)) s"
proof (induction cur s arbitrary: P rule: clean_from.induct)
  case (1 cur)
  then show ?case by simp
next
  case (2 cur c cs)
  show ?case
  proof (cases "c = 13")
    case True
    show ?thesis
    proof (cases cs)
      case Nil
      then show ?thesis using True by simp
    next
      case (Cons d r)
      show ?thesis
      proof (cases "d = 10")
        case dLF: True
        have "ends10 ((P @ rstrip_ws cur @ [10]) @ clean_from [] r)
                = last_visible_LF (ends10 ((P @ rstrip_ws cur @ [10]) @ rstrip_ws [])) r"
          using "2.IH"(2)[OF True Cons dLF, of "P @ rstrip_ws cur @ [10]"] by simp
        then show ?thesis using True Cons dLF by simp
      next
        case dn: False
        have "ends10 ((P @ rstrip_ws cur) @ clean_from [] cs)
                = last_visible_LF (ends10 ((P @ rstrip_ws cur) @ rstrip_ws [])) cs"
          using "2.IH"(3)[OF True Cons dn, of "P @ rstrip_ws cur"] by simp
        then show ?thesis using True Cons dn by simp
      qed
    qed
  next
    case nCR: False
    show ?thesis
    proof (cases "c = 10")
      case True
      have "ends10 ((P @ rstrip_ws cur @ [10]) @ clean_from [] cs)
              = last_visible_LF (ends10 ((P @ rstrip_ws cur @ [10]) @ rstrip_ws [])) cs"
        using "2.IH"(4)[OF nCR True, of "P @ rstrip_ws cur @ [10]"] by simp
      then show ?thesis using nCR True by simp
    next
      case nLF: False
      show ?thesis
      proof (cases "is_linebreak c")
        case True
        then have v: "c \<noteq> 32" "c \<noteq> 9" by (auto simp: is_linebreak_def)
        have "ends10 ((P @ cur @ [c]) @ clean_from [] cs)
                = last_visible_LF (ends10 ((P @ cur @ [c]) @ rstrip_ws [])) cs"
          using "2.IH"(5)[OF nCR nLF True, of "P @ cur @ [c]"] by simp
        then show ?thesis using nCR nLF True v by simp
      next
        case nb: False
        have ih: "ends10 (P @ clean_from (cur @ [c]) cs)
                = last_visible_LF (ends10 (P @ rstrip_ws (cur @ [c]))) cs"
          using "2.IH"(6)[OF nCR nLF nb, of P] "2.prems" nb by simp
        show ?thesis
        proof (cases "c = 32 \<or> c = 9")
          case True
          then show ?thesis using ih nCR nLF nb by (auto simp: rstrip_snoc)
        next
          case False
          then have "rstrip_ws (cur @ [c]) = cur @ [c]" using nCR nLF by (simp add: rstrip_snoc)
          then show ?thesis using ih nCR nLF nb False by simp
        qed
      qed
    qed
  qed
qed

lemma clean_text_last_visible: "ends10 (clean_text s) = last_visible_LF False s"
  using clean_from_last_visible[of "[]" "[]" s] by (simp add: clean_text_eq)

section \<open>Normalising one file\<close>

lemma and_then_Inl [simp]: "and_then (Inl e, w) k = (Inl e, w)"
  by (simp add: and_then_def)

lemma and_then_Inr [simp]: "and_then (Inr x, w) k = k x w"
  by (simp add: and_then_def)

lemma fs_log [simp]: "fs (log e w) = fs w"
  by (simp add: log_def)

lemma trace_log [simp]: "trace (log e w) = trace w @ [e]"
  by (simp add: log_def)

lemma replace_crlf_no_CR: "0x0D \<notin> set bs \<Longrightarrow> replace_crlf bs = bs"
  by (induction bs) auto

lemma has_crlf_CR: "has_crlf bs \<Longrightarrow> 0x0D \<in> set bs"
  by (induction bs rule: has_crlf.induct) auto

lemma utf8_encode_clean_text:
  assumes "utf8_decode bs = Some decoded"
  shows "\<exists>enc. utf8_encode (clean_text decoded) = Some enc"
  using utf8_decode_encode[OF assms] set_clean_text[of decoded] by (rule utf8_encode_subset)

lemma clean_bytes_Some:
  assumes "utf8_decode (replace_crlf raw) = Some decoded"
  obtains out where "clean_bytes raw = Some out" "utf8_encode (clean_text decoded) = Some out"
  using utf8_encode_clean_text[OF assms] assms by (auto simp: clean_bytes_def)

lemma clean_bytes_SomeD:
  assumes "clean_bytes raw = Some out"
  obtains decoded where "utf8_decode (replace_crlf raw) = Some decoded"
    "utf8_encode (clean_text decoded) = Some out"
  using assms by (auto simp: clean_bytes_def split: option.splits)

lemma clean_bytes_None: "clean_bytes raw = None \<longleftrightarrow> utf8_decode (replace_crlf raw) = None"
proof (cases "utf8_decode (replace_crlf raw)")
  case None
  then show ?thesis by (simp add: clean_bytes_def)
next
  case (Some decoded)
  from clean_bytes_Some[OF this] show ?thesis using Some by auto
qed

lemma clean_bytes_no_CR:
  assumes "clean_bytes raw = Some out"
  shows "0x0D \<notin> set out"
proof
  assume in_out: "0x0D \<in> set out"
  from assms obtain decoded where enc: "utf8_encode (clean_text decoded) = Some out"
    by (rule clean_bytes_SomeD)
  have "unat (0x0D :: byte) < 128" by simp
  from utf8_encode_low_byte[OF enc in_out this] have "13 \<in> set (clean_text decoded)" by simp
  then show False using CR_notin_clean_text by blast
qed

lemma clean_bytes_final_LF:
  assumes "clean_bytes raw = Some out"
  shows "ends_with_LF out = ends_with_LF (rstrip [0x20, 0x09, 0x0D] raw)"
proof -
  from assms obtain decoded where dec: "utf8_decode (replace_crlf raw) = Some decoded"
    and enc: "utf8_encode (clean_text decoded) = Some out"
    by (rule clean_bytes_SomeD)
  have "ends_with_LF out = ends10 (clean_text decoded)" using enc by (rule ends10_encode)
  also have "\<dots> = last_visible_LF False decoded" by (rule clean_text_last_visible)
  also have "\<dots> = last_visible_LF False (map unat (replace_crlf raw))"
    using utf8_decode_encode[OF dec] by (rule last_visible_LF_encode[symmetric])
  also have "\<dots> = last_visible_LF False (map unat raw)" by (rule last_visible_LF_replace_crlf)
  also have "\<dots> = ends_with_LF (rstrip [0x20, 0x09, 0x0D] raw)"
    by (rule last_visible_LF_rstrip[symmetric])
  finally show ?thesis .
qed

lemma clean_bytes_idem:
  assumes "clean_bytes raw = Some out"
  shows "clean_bytes out = Some out"
proof -
  from assms obtain decoded where enc: "utf8_encode (clean_text decoded) = Some out"
    by (rule clean_bytes_SomeD)
  have "replace_crlf out = out" using clean_bytes_no_CR[OF assms] by (rule replace_crlf_no_CR)
  moreover have "utf8_decode out = Some (clean_text decoded)" using enc by (rule utf8_encode_decode)
  ultimately show ?thesis by (simp add: clean_bytes_def clean_text_idem enc)
qed

lemma clean_bytes_unchanged:
  assumes "0x0D \<notin> set raw" "no_trailing_whitespace raw" "clean_bytes raw = Some out"
  shows "out = raw"
proof -
  have r: "replace_crlf raw = raw" using assms(1) by (rule replace_crlf_no_CR)
  from assms(3) obtain decoded where dec0: "utf8_decode (replace_crlf raw) = Some decoded"
    and enc: "utf8_encode (clean_text decoded) = Some out"
    by (rule clean_bytes_SomeD)
  have dec: "utf8_decode raw = Some decoded" using dec0 by (simp only: r)
  have raw: "utf8_encode decoded = Some raw" using dec by (rule utf8_decode_encode)
  have "13 \<notin> set decoded"
  proof
    assume "13 \<in> set decoded"
    from utf8_encode_low_char[OF raw this] obtain b where "b \<in> set raw" "unat b = 13" by auto
    then show False using assms(1) by (simp add: byte_eq_unat[symmetric])
  qed
  moreover have "ends_clean False decoded"
    using assms(2) ends_clean_encode[OF raw] by (simp add: no_trailing_whitespace_ends_clean)
  ultimately have "clean_text decoded = decoded" by (rule clean_text_unchanged)
  then show ?thesis using enc raw by simp
qed

lemma normalize_text_file_missing:
  "fs w path = None \<or> fs w path = Some NotRegular \<Longrightarrow>
   normalize_text_file path w = (Inr False, w)"
  by (auto simp: normalize_text_file_def)

lemma normalize_text_file_regular:
  assumes "fs w path = Some (RegularFile raw)"
  shows "normalize_text_file path w =
           (case clean_bytes raw of
              None \<Rightarrow> (Inr False, log (ReadBytes path) w)
            | Some enc \<Rightarrow>
                if enc \<noteq> raw then (Inr True, write_text path enc (log (ReadBytes path) w))
                else (Inr False, log (ReadBytes path) w))"
proof (cases "utf8_decode (replace_crlf raw)")
  case None
  then have "clean_bytes raw = None" by (simp add: clean_bytes_None)
  then show ?thesis using assms None by (simp add: normalize_text_file_def)
next
  case (Some decoded)
  from clean_bytes_Some[OF Some] obtain out where
    "clean_bytes raw = Some out" "utf8_encode (clean_text decoded) = Some out" .
  then show ?thesis using assms Some by (simp add: normalize_text_file_def Let_def)
qed

lemma normalize_text_file_returns:
  "\<exists>ch w'. normalize_text_file path w = (Inr ch, w')"
proof (cases "fs w path")
  case None
  then show ?thesis by (auto simp: normalize_text_file_missing)
next
  case (Some n)
  show ?thesis
  proof (cases n)
    case (RegularFile raw)
    then show ?thesis using Some
      by (auto simp: normalize_text_file_regular split: option.splits)
  next
    case NotRegular
    then show ?thesis using Some by (auto simp: normalize_text_file_missing)
  qed
qed

lemma normalize_files_returns:
  "\<exists>changed w'. normalize_files files w = (Inr changed, w')"
proof (induction files arbitrary: w)
  case Nil
  then show ?case by simp
next
  case (Cons rel rest)
  obtain ch w1 where 1: "normalize_text_file rel w = (Inr ch, w1)"
    using normalize_text_file_returns by blast
  obtain changed w2 where 2: "normalize_files rest w1 = (Inr changed, w2)"
    using Cons by blast
  show ?case by (simp add: 1 2)
qed

lemma normalize_text_file_again:
  "case normalize_text_file path w of
     (r, w1) \<Rightarrow> \<exists>w2. normalize_text_file path w1 = (Inr False, w2) \<and> fs w2 = fs w1"
proof (cases "fs w path")
  case None
  then show ?thesis by (simp add: normalize_text_file_missing)
next
  case (Some n)
  show ?thesis
  proof (cases n)
    case NotRegular
    then show ?thesis using Some by (simp add: normalize_text_file_missing)
  next
    case (RegularFile raw)
    then have f: "fs w path = Some (RegularFile raw)" using Some by simp
    then have f1: "fs (log (ReadBytes path) w) path = Some (RegularFile raw)" by simp
    show ?thesis
    proof (cases "clean_bytes raw")
      case None
      then show ?thesis
        by (simp add: normalize_text_file_regular[OF f] normalize_text_file_regular[OF f1])
    next
      case (Some enc)
      show ?thesis
      proof (cases "enc = raw")
        case True
        then show ?thesis using Some
          by (simp add: normalize_text_file_regular[OF f] normalize_text_file_regular[OF f1])
      next
        case False
        have f2: "fs (write_text path enc (log (ReadBytes path) w)) path = Some (RegularFile enc)"
          by (simp add: write_text_def)
        have "clean_bytes enc = Some enc" using Some by (rule clean_bytes_idem)
        then show ?thesis using Some False
          by (simp add: normalize_text_file_regular[OF f] normalize_text_file_regular[OF f2])
      qed
    qed
  qed
qed

subsection \<open>A file system that refuses access\<close>









text \<open>Unfolding rules for evaluating the functions on concrete bytes.\<close>

lemmas eval_defs = clean_bytes_def utf8_decode.simps utf8_next_def utf8_next2_def utf8_next3_def
  utf8_next4_def in_range_def cont_bits_def clean_text_def splitlines_def is_linebreak_def
  clean_line_def endswith_def suffix_to_prefix rstrip_def utf8_encode_char_def


section \<open>Steps of a run\<close>

lemma run_cases:
  obtains (undecodable) "capture" "snd (git w cmd) = None"
      "run git cmd check capture w = (Inl UnicodeDecodeError, log (Undecodable cmd) w)"
  | (raised) p where "check" "returncode p \<noteq> 0"
      "run git cmd check capture w = (Inl (SystemExit_code (returncode p)), log (Run cmd p) w)"
  | (returned) p where "check \<longrightarrow> returncode p = 0"
      "stdout p = (if capture then snd (git w cmd) else None)"
      "returncode p = fst (git w cmd)"
      "run git cmd check capture w = (Inr p, log (Run cmd p) w)"
proof (cases "capture \<and> snd (git w cmd) = None")
  case True
  then show thesis using undecodable by (simp add: run_def)
next
  case dec: False
  define p where "p = \<lparr>returncode = fst (git w cmd),
                         stdout = (if capture then snd (git w cmd) else None)\<rparr>"
  have r: "run git cmd check capture w =
             (if check \<and> returncode p \<noteq> 0
              then (Inl (SystemExit_code (returncode p)), log (Run cmd p) w)
              else (Inr p, log (Run cmd p) w))"
    unfolding run_def p_def Let_def using dec by (simp only: if_False)
  have f: "stdout p = (if capture then snd (git w cmd) else None)"
    "returncode p = fst (git w cmd)"
    by (simp_all add: p_def)
  show thesis
  proof (cases "check \<and> returncode p \<noteq> 0")
    case True
    show thesis
    proof (rule raised[of p])
      show "check" using True by blast
      show "returncode p \<noteq> 0" using True by blast
      show "run git cmd check capture w
              = (Inl (SystemExit_code (returncode p)), log (Run cmd p) w)"
        using r True by simp
    qed
  next
    case False
    show thesis
    proof (rule returned[of p])
      show "check \<longrightarrow> returncode p = 0" using False by blast
      show "stdout p = (if capture then snd (git w cmd) else None)" by (rule f(1))
      show "returncode p = fst (git w cmd)" by (rule f(2))
      show "run git cmd check capture w = (Inr p, log (Run cmd p) w)"
        using r False by simp
    qed
  qed
qed

lemma repo_root_cases:
  obtains (undecodable)
      "repo_root git w = (Inl UnicodeDecodeError, log (Undecodable RevParseShowToplevel) w)"
  | (raised) p where "returncode p \<noteq> 0"
      "repo_root git w = (Inl (SystemExit_code (returncode p)), log (Run RevParseShowToplevel p) w)"
  | (blank) p where "returncode p = 0" "strip (stdout_or_empty p) = []"
      "repo_root git w = (Inl (SystemExit_msg (py ''Not a git repository (git rev-parse failed).'')),
                           log (Run RevParseShowToplevel p) w)"
  | (found) p where "returncode p = 0" "strip (stdout_or_empty p) \<noteq> []"
      "repo_root git w = (Inr (strip (stdout_or_empty p)), log (Run RevParseShowToplevel p) w)"
proof (cases rule: run_cases[where check=True and git=git and cmd=RevParseShowToplevel and capture=True and w=w])
  case undecodable
  then show ?thesis using that(1) by (simp add: repo_root_def)
next
  case (raised p)
  then show ?thesis using that(2)[of p] by (simp add: repo_root_def)
next
  case (returned p)
  show ?thesis
  proof (cases "strip (stdout_or_empty p) = []")
    case True
    then show ?thesis using returned that(3)[of p] by (simp add: repo_root_def)
  next
    case False
    then show ?thesis using returned that(4)[of p] by (simp add: repo_root_def)
  qed
qed

lemma normalize_text_file_events:
  "\<exists>r evs fs1. normalize_text_file path w = (r, \<lparr>fs = fs1, trace = trace w @ evs\<rparr>)
       \<and> list_all is_file_event evs"
proof (cases "fs w path")
  case None
  then have "normalize_text_file path w = (Inr False, \<lparr>fs = fs w, trace = trace w @ []\<rparr>)"
    by (simp add: normalize_text_file_missing)
  moreover have "list_all is_file_event []" by simp
  ultimately show ?thesis by blast
next
  case (Some n)
  show ?thesis
  proof (cases n)
    case NotRegular
    then have "normalize_text_file path w = (Inr False, \<lparr>fs = fs w, trace = trace w @ []\<rparr>)"
      using Some by (simp add: normalize_text_file_missing)
    moreover have "list_all is_file_event []" by simp
    ultimately show ?thesis by blast
  next
    case (RegularFile raw)
    then have f: "fs w path = Some (RegularFile raw)" using Some by simp
    have r: "is_file_event (ReadBytes path)" by simp
    show ?thesis
    proof (cases "clean_bytes raw")
      case None
      then have "normalize_text_file path w
                   = (Inr False, \<lparr>fs = fs w, trace = trace w @ [ReadBytes path]\<rparr>)"
        by (simp add: normalize_text_file_regular[OF f] log_def)
      moreover have "list_all is_file_event [ReadBytes path]" by simp
      ultimately show ?thesis by blast
    next
      case (Some enc)
      show ?thesis
      proof (cases "enc = raw")
        case True
        then have "normalize_text_file path w
                   = (Inr False, \<lparr>fs = fs w, trace = trace w @ [ReadBytes path]\<rparr>)"
          using Some by (simp add: normalize_text_file_regular[OF f] log_def)
        moreover have "list_all is_file_event [ReadBytes path]" by simp
        ultimately show ?thesis by blast
      next
        case False
        then have "normalize_text_file path w
                   = (Inr True, \<lparr>fs = (fs w)(path \<mapsto> RegularFile enc),
                                  trace = trace w @ [ReadBytes path, WriteText path enc]\<rparr>)"
          using Some by (simp add: normalize_text_file_regular[OF f] log_def write_text_def)
        moreover have "list_all is_file_event [ReadBytes path, WriteText path enc]" by simp
        ultimately show ?thesis by blast
      qed
    qed
  qed
qed

lemma normalize_files_events:
  "\<exists>changed evs fs1. normalize_files files w = (Inr changed, \<lparr>fs = fs1, trace = trace w @ evs\<rparr>)
       \<and> list_all is_file_event evs"
proof (induction files arbitrary: w)
  case Nil
  have "normalize_files [] w = (Inr [], \<lparr>fs = fs w, trace = trace w @ []\<rparr>)" by simp
  moreover have "list_all is_file_event []" by simp
  ultimately show ?case by blast
next
  case (Cons rel rest)
  obtain r evs1 fs1 where 1: "normalize_text_file rel w = (r, \<lparr>fs = fs1, trace = trace w @ evs1\<rparr>)"
    and e1: "list_all is_file_event evs1"
    using normalize_text_file_events by blast
  obtain ch where r: "r = Inr ch"
    using normalize_text_file_returns[of rel w] 1 by auto
  obtain changed evs2 fs2 where
    2: "normalize_files rest \<lparr>fs = fs1, trace = trace w @ evs1\<rparr>
          = (Inr changed, \<lparr>fs = fs2, trace = (trace w @ evs1) @ evs2\<rparr>)"
    and e2: "list_all is_file_event evs2"
    using Cons[of "\<lparr>fs = fs1, trace = trace w @ evs1\<rparr>"] by auto
  have "normalize_files (rel # rest) w
          = (Inr (if ch then rel # changed else changed),
             \<lparr>fs = fs2, trace = trace w @ (evs1 @ evs2)\<rparr>)"
    using 1 2 r by simp
  moreover have "list_all is_file_event (evs1 @ evs2)" using e1 e2 by simp
  ultimately show ?case by blast
qed

text \<open>
  The body of \<open>main\<close> in three parts: up to the normalisation, from the whitespace
  check to the staged names, and from the dry-run test to the end.
\<close>

definition finish :: "tool \<Rightarrow> args \<Rightarrow> world \<Rightarrow> (exc + int) \<times> world" where
  "finish git a w6 =
     (if dry_run a
      then and_then (run git Status True False w6) (\<lambda>_ w7. (Inr 0, w7))
      else
      let msg = strip (message a) in
      if msg = [] then (Inr 4, w6)
      else
      and_then (run git (Commit msg) True False w6) (\<lambda>_ w7.
      and_then (run git RevParseAbbrevRefHead True True w7) (\<lambda>b w8.
        let branch = strip (stdout_or_empty b) in
        if branch = [] then (Inr 5, w8)
        else
      and_then (run git (Push (py ''origin'') branch) True False w8) (\<lambda>_ w9.
        (Inr 0, w9)))))"

definition check_and_stage :: "pystr list \<Rightarrow> tool \<Rightarrow> args \<Rightarrow> world \<Rightarrow> (exc + int) \<times> world" where
  "check_and_stage files git a w3 =
     and_then (run git DiffCheck False True w3) (\<lambda>p w4.
       if returncode p \<noteq> 0 \<or> strip (stdout_or_empty p) \<noteq> [] then (Inr 2, w4)
       else
     and_then (run git (Add files) True False w4) (\<lambda>_ w5.
     and_then (run git DiffNameOnlyCached True True w5) (\<lambda>q w6.
       let staged_now = splitlines False (stdout_or_empty q) in
       if staged_now = [] then (Inr 0, w6)
       else
       let forbidden = filter is_forbidden_path staged_now in
       if forbidden \<noteq> [] then (Inr 3, w6)
       else finish git a w6)))"

lemma main_on_phases:
  "main_on files git a w0 =
     and_then (repo_root git w0) (\<lambda>root w1.
       let w2 = log (Chdir root) w1 in
       (case find is_forbidden_path files of
          Some f \<Rightarrow> (Inl (SystemExit_msg (py ''Refusing to stage forbidden path: '' @ f)), w2)
        | None \<Rightarrow>
            and_then (normalize_files files w2) (\<lambda>changed w3. check_and_stage files git a w3)))"
  unfolding main_on_def check_and_stage_def finish_def ..

lemma finish_cases:
  obtains
    (dry_failed) s where "dry_run a" "returncode s \<noteq> 0"
      "finish git a w = (Inl (SystemExit_code (returncode s)), log (Run Status s) w)"
  | (dry_done) s where "dry_run a" "returncode s = 0"
      "finish git a w = (Inr 0, log (Run Status s) w)"
  | (empty_message) "\<not> dry_run a" "strip (message a) = []"
      "finish git a w = (Inr 4, w)"
  | (commit_failed) c where "\<not> dry_run a" "strip (message a) \<noteq> []" "returncode c \<noteq> 0"
      "finish git a w
         = (Inl (SystemExit_code (returncode c)), log (Run (Commit (strip (message a))) c) w)"
  | (branch_failed) c b where "\<not> dry_run a" "strip (message a) \<noteq> []" "returncode c = 0"
      "returncode b \<noteq> 0"
      "finish git a w
         = (Inl (SystemExit_code (returncode b)),
            log (Run RevParseAbbrevRefHead b) (log (Run (Commit (strip (message a))) c) w))"
  | (branch_blank) c b where "\<not> dry_run a" "strip (message a) \<noteq> []" "returncode c = 0"
      "returncode b = 0" "strip (stdout_or_empty b) = []"
      "finish git a w
         = (Inr 5, log (Run RevParseAbbrevRefHead b) (log (Run (Commit (strip (message a))) c) w))"
  | (push_failed) c b u where "\<not> dry_run a" "strip (message a) \<noteq> []" "returncode c = 0"
      "returncode b = 0" "strip (stdout_or_empty b) \<noteq> []" "returncode u \<noteq> 0"
      "finish git a w
         = (Inl (SystemExit_code (returncode u)),
            log (Run (Push (py ''origin'') (strip (stdout_or_empty b))) u)
              (log (Run RevParseAbbrevRefHead b) (log (Run (Commit (strip (message a))) c) w)))"
  | (pushed) c b u where "\<not> dry_run a" "strip (message a) \<noteq> []" "returncode c = 0"
      "returncode b = 0" "strip (stdout_or_empty b) \<noteq> []" "returncode u = 0"
      "finish git a w
         = (Inr 0,
            log (Run (Push (py ''origin'') (strip (stdout_or_empty b))) u)
              (log (Run RevParseAbbrevRefHead b) (log (Run (Commit (strip (message a))) c) w)))"
  | (branch_undecodable) c where "\<not> dry_run a" "strip (message a) \<noteq> []" "returncode c = 0"
      "finish git a w
         = (Inl UnicodeDecodeError,
            log (Undecodable RevParseAbbrevRefHead) (log (Run (Commit (strip (message a))) c) w))"
proof (cases "dry_run a")
  case True
  show ?thesis
  proof (cases rule: run_cases[where check=True and git=git and cmd=Status and capture=False and w=w])
    case undecodable
    then show ?thesis by simp
  next
    case (raised s)
    then show ?thesis using True dry_failed[of s] by (simp add: finish_def)
  next
    case (returned s)
    then show ?thesis using True dry_done[of s] by (simp add: finish_def)
  qed
next
  case nd: False
  show ?thesis
  proof (cases "strip (message a) = []")
    case True
    then show ?thesis using nd empty_message by (simp add: finish_def)
  next
    case msg: False
    let ?m = "strip (message a)"
    show ?thesis
    proof (cases rule: run_cases[where check=True and git=git and cmd="Commit ?m" and capture=False and w=w])
      case undecodable
      then show ?thesis by simp
    next
      case (raised c)
      then show ?thesis using nd msg commit_failed[of c] by (simp add: finish_def)
    next
      case c: (returned c)
      let ?w7 = "log (Run (Commit ?m) c) w"
      show ?thesis
      proof (cases rule: run_cases[where check=True and git=git and cmd=RevParseAbbrevRefHead and capture=True and w="?w7"])
        case undecodable
        then show ?thesis using nd msg c branch_undecodable[of c] by (simp add: finish_def)
      next
        case (raised b)
        then show ?thesis using nd msg c branch_failed[of c b] by (simp add: finish_def)
      next
        case b: (returned b)
        let ?w8 = "log (Run RevParseAbbrevRefHead b) ?w7"
        show ?thesis
        proof (cases "strip (stdout_or_empty b) = []")
          case True
          then show ?thesis using nd msg c b branch_blank[of c b] by (simp add: finish_def)
        next
          case br: False
          show ?thesis
          proof (cases rule: run_cases[where check=True and git=git and cmd="Push (py ''origin'') (strip (stdout_or_empty b))" and capture=False and w="?w8"])
            case undecodable
            then show ?thesis by simp
          next
            case (raised u)
            then show ?thesis using nd msg c b br push_failed[of c b u]
              by (simp add: finish_def)
          next
            case (returned u)
            then show ?thesis using nd msg c b br pushed[of c b u]
              by (simp add: finish_def)
          qed
        qed
      qed
    qed
  qed
qed

lemma check_and_stage_cases:
  obtains
    (whitespace) d where "returncode d \<noteq> 0 \<or> strip (stdout_or_empty d) \<noteq> []"
      "check_and_stage files git a w = (Inr 2, log (Run DiffCheck d) w)"
  | (add_failed) d s where "returncode d = 0" "strip (stdout_or_empty d) = []"
      "returncode s \<noteq> 0"
      "check_and_stage files git a w
         = (Inl (SystemExit_code (returncode s)),
            log (Run (Add files) s) (log (Run DiffCheck d) w))"
  | (query_failed) d s q where "returncode d = 0" "strip (stdout_or_empty d) = []"
      "returncode s = 0" "returncode q \<noteq> 0"
      "check_and_stage files git a w
         = (Inl (SystemExit_code (returncode q)),
            log (Run DiffNameOnlyCached q) (log (Run (Add files) s) (log (Run DiffCheck d) w)))"
  | (nothing_staged) d s q where "returncode d = 0" "strip (stdout_or_empty d) = []"
      "returncode s = 0" "returncode q = 0" "splitlines False (stdout_or_empty q) = []"
      "check_and_stage files git a w
         = (Inr 0,
            log (Run DiffNameOnlyCached q) (log (Run (Add files) s) (log (Run DiffCheck d) w)))"
  | (forbidden_staged) d s q where "returncode d = 0" "strip (stdout_or_empty d) = []"
      "returncode s = 0" "returncode q = 0" "splitlines False (stdout_or_empty q) \<noteq> []"
      "filter is_forbidden_path (splitlines False (stdout_or_empty q)) \<noteq> []"
      "check_and_stage files git a w
         = (Inr 3,
            log (Run DiffNameOnlyCached q) (log (Run (Add files) s) (log (Run DiffCheck d) w)))"
  | (staged) d s q where "returncode d = 0" "strip (stdout_or_empty d) = []"
      "returncode s = 0" "returncode q = 0" "splitlines False (stdout_or_empty q) \<noteq> []"
      "filter is_forbidden_path (splitlines False (stdout_or_empty q)) = []"
      "check_and_stage files git a w
         = finish git a
             (log (Run DiffNameOnlyCached q) (log (Run (Add files) s) (log (Run DiffCheck d) w)))"
  | (check_undecodable)
      "check_and_stage files git a w = (Inl UnicodeDecodeError, log (Undecodable DiffCheck) w)"
  | (query_undecodable) d s where "returncode d = 0" "strip (stdout_or_empty d) = []"
      "returncode s = 0"
      "check_and_stage files git a w
         = (Inl UnicodeDecodeError,
            log (Undecodable DiffNameOnlyCached) (log (Run (Add files) s) (log (Run DiffCheck d) w)))"
proof (cases rule: run_cases[where check=False and git=git and cmd=DiffCheck and capture=True and w=w])
  case undecodable
  then show ?thesis using check_undecodable by (simp add: check_and_stage_def)
next
  case (raised d)
  then show ?thesis by simp
next
  case d: (returned d)
  let ?w4 = "log (Run DiffCheck d) w"
  show ?thesis
  proof (cases "returncode d \<noteq> 0 \<or> strip (stdout_or_empty d) \<noteq> []")
    case True
    then show ?thesis using d whitespace[of d] by (simp add: check_and_stage_def)
  next
    case ok: False
    show ?thesis
    proof (cases rule: run_cases[where check=True and git=git and cmd="Add files" and capture=False and w="?w4"])
      case undecodable
      then show ?thesis by simp
    next
      case (raised s)
      then show ?thesis using d ok add_failed[of d s] by (simp add: check_and_stage_def)
    next
      case s: (returned s)
      let ?w5 = "log (Run (Add files) s) ?w4"
      show ?thesis
      proof (cases rule: run_cases[where check=True and git=git and cmd=DiffNameOnlyCached and capture=True and w="?w5"])
        case undecodable
        then show ?thesis using d ok s query_undecodable[of d s]
          by (simp add: check_and_stage_def)
      next
        case (raised q)
        then show ?thesis using d ok s query_failed[of d s q]
          by (simp add: check_and_stage_def)
      next
        case q: (returned q)
        show ?thesis
        proof (cases "splitlines False (stdout_or_empty q) = []")
          case True
          then show ?thesis using d ok s q nothing_staged[of d s q]
            by (simp add: check_and_stage_def)
        next
          case ne: False
          show ?thesis
          proof (cases "filter is_forbidden_path (splitlines False (stdout_or_empty q)) = []")
            case True
            then show ?thesis using d ok s q ne staged[of d s q]
              by (simp add: check_and_stage_def)
          next
            case False
            then show ?thesis using d ok s q ne forbidden_staged[of d s q]
              by (simp add: check_and_stage_def)
          qed
        qed
      qed
    qed
  qed
qed

lemma main_on_cases:
  obtains
    (root_failed) p where "returncode p \<noteq> 0"
      "main_on files git a w
         = (Inl (SystemExit_code (returncode p)), log (Run RevParseShowToplevel p) w)"
  | (root_blank) p where "returncode p = 0" "strip (stdout_or_empty p) = []"
      "main_on files git a w
         = (Inl (SystemExit_msg (py ''Not a git repository (git rev-parse failed).'')),
            log (Run RevParseShowToplevel p) w)"
  | (forbidden_listed) p f where "returncode p = 0" "strip (stdout_or_empty p) \<noteq> []"
      "find is_forbidden_path files = Some f"
      "main_on files git a w
         = (Inl (SystemExit_msg (py ''Refusing to stage forbidden path: '' @ f)),
            log (Chdir (strip (stdout_or_empty p))) (log (Run RevParseShowToplevel p) w))"
  | (normalized) p changed evs fs1 where "returncode p = 0" "strip (stdout_or_empty p) \<noteq> []"
      "find is_forbidden_path files = None" "list_all is_file_event evs"
      "normalize_files files
         (log (Chdir (strip (stdout_or_empty p))) (log (Run RevParseShowToplevel p) w))
         = (Inr changed,
            \<lparr>fs = fs1,
              trace = trace w @ [Run RevParseShowToplevel p, Chdir (strip (stdout_or_empty p))]
                      @ evs\<rparr>)"
      "main_on files git a w
         = check_and_stage files git a
             \<lparr>fs = fs1,
               trace = trace w @ [Run RevParseShowToplevel p, Chdir (strip (stdout_or_empty p))]
                       @ evs\<rparr>"
  | (root_undecodable)
      "main_on files git a w = (Inl UnicodeDecodeError, log (Undecodable RevParseShowToplevel) w)"
proof (cases rule: repo_root_cases[of git w])
  case undecodable
  then show ?thesis using root_undecodable by (simp add: main_on_phases)
next
  case (raised p)
  then show ?thesis using root_failed[of p] by (simp add: main_on_phases)
next
  case (blank p)
  then show ?thesis using root_blank[of p] by (simp add: main_on_phases)
next
  case (found p)
  let ?w2 = "log (Chdir (strip (stdout_or_empty p))) (log (Run RevParseShowToplevel p) w)"
  show ?thesis
  proof (cases "find is_forbidden_path files")
    case (Some f)
    then show ?thesis using found forbidden_listed[of p f] by (simp add: main_on_phases)
  next
    case None
    obtain changed evs fs1 where
      n: "normalize_files files ?w2 = (Inr changed, \<lparr>fs = fs1, trace = trace ?w2 @ evs\<rparr>)"
      and e: "list_all is_file_event evs"
      using normalize_files_events by blast
    have n': "normalize_files files ?w2
         = (Inr changed,
            \<lparr>fs = fs1,
              trace = trace w @ [Run RevParseShowToplevel p, Chdir (strip (stdout_or_empty p))]
                      @ evs\<rparr>)"
      using n by simp
    show ?thesis using found None e n' normalized[of p evs changed fs1]
      by (simp add: main_on_phases)
  qed
qed

lemma file_events_no_run: "list_all is_file_event evs \<Longrightarrow> Run c p \<notin> set evs"
  by (induction evs) auto

lemma file_events_no_undecodable: "list_all is_file_event evs \<Longrightarrow> Undecodable c \<notin> set evs"
  by (induction evs) auto

lemma file_events_no_commit: "list_all is_file_event evs \<Longrightarrow> \<not> list_ex is_commit evs"
  by (induction evs) (auto elim: is_file_event.elims)

lemma file_events_no_push: "list_all is_file_event evs \<Longrightarrow> \<not> list_ex is_push evs"
  by (induction evs) (auto elim: is_file_event.elims)

lemma start_simps [simp]: "fs (start f) = f" "trace (start f) = []"
  by (simp_all add: start_def)

lemmas run_facts = file_events_no_run file_events_no_undecodable file_events_no_commit
  file_events_no_push

text \<open>Every run of \<open>main\<close> takes one of twenty paths.\<close>

lemma main_on_runs:
  obtains
    (root_failed) p where
      "returncode p \<noteq> 0"
      "main_on files git a (start tree) = (Inl (SystemExit_code (returncode p)), \<lparr>fs = tree, trace = [Run RevParseShowToplevel p]\<rparr>)"
  | (root_blank) p where
      "returncode p = 0"
      "strip (stdout_or_empty p) = []"
      "main_on files git a (start tree) = (Inl (SystemExit_msg (py ''Not a git repository (git rev-parse failed).'')), \<lparr>fs = tree, trace = [Run RevParseShowToplevel p]\<rparr>)"
  | (forbidden_listed) p f where
      "returncode p = 0"
      "strip (stdout_or_empty p) \<noteq> []"
      "find is_forbidden_path files = Some f"
      "main_on files git a (start tree) = (Inl (SystemExit_msg (py ''Refusing to stage forbidden path: '' @ f)), \<lparr>fs = tree, trace = [Run RevParseShowToplevel p, Chdir (strip (stdout_or_empty p))]\<rparr>)"
  | (whitespace) p changed evs fsn d where
      "returncode p = 0"
      "strip (stdout_or_empty p) \<noteq> []"
      "find is_forbidden_path files = None"
      "list_all is_file_event evs"
      "normalize_files files \<lparr>fs = tree, trace = [Run RevParseShowToplevel p, Chdir (strip (stdout_or_empty p))]\<rparr> = (Inr changed, \<lparr>fs = fsn, trace = [Run RevParseShowToplevel p, Chdir (strip (stdout_or_empty p))] @ evs\<rparr>)"
      "returncode d \<noteq> 0 \<or> strip (stdout_or_empty d) \<noteq> []"
      "main_on files git a (start tree) = (Inr 2, \<lparr>fs = fsn, trace = [Run RevParseShowToplevel p, Chdir (strip (stdout_or_empty p))] @ evs @ [Run DiffCheck d]\<rparr>)"
  | (add_failed) p changed evs fsn d s where
      "returncode p = 0"
      "strip (stdout_or_empty p) \<noteq> []"
      "find is_forbidden_path files = None"
      "list_all is_file_event evs"
      "normalize_files files \<lparr>fs = tree, trace = [Run RevParseShowToplevel p, Chdir (strip (stdout_or_empty p))]\<rparr> = (Inr changed, \<lparr>fs = fsn, trace = [Run RevParseShowToplevel p, Chdir (strip (stdout_or_empty p))] @ evs\<rparr>)"
      "returncode d = 0"
      "strip (stdout_or_empty d) = []"
      "returncode s \<noteq> 0"
      "main_on files git a (start tree) = (Inl (SystemExit_code (returncode s)), \<lparr>fs = fsn, trace = [Run RevParseShowToplevel p, Chdir (strip (stdout_or_empty p))] @ evs @ [Run DiffCheck d, Run (Add files) s]\<rparr>)"
  | (query_failed) p changed evs fsn d s q where
      "returncode p = 0"
      "strip (stdout_or_empty p) \<noteq> []"
      "find is_forbidden_path files = None"
      "list_all is_file_event evs"
      "normalize_files files \<lparr>fs = tree, trace = [Run RevParseShowToplevel p, Chdir (strip (stdout_or_empty p))]\<rparr> = (Inr changed, \<lparr>fs = fsn, trace = [Run RevParseShowToplevel p, Chdir (strip (stdout_or_empty p))] @ evs\<rparr>)"
      "returncode d = 0"
      "strip (stdout_or_empty d) = []"
      "returncode s = 0"
      "returncode q \<noteq> 0"
      "main_on files git a (start tree) = (Inl (SystemExit_code (returncode q)), \<lparr>fs = fsn, trace = [Run RevParseShowToplevel p, Chdir (strip (stdout_or_empty p))] @ evs @ [Run DiffCheck d, Run (Add files) s, Run DiffNameOnlyCached q]\<rparr>)"
  | (nothing_staged) p changed evs fsn d s q where
      "returncode p = 0"
      "strip (stdout_or_empty p) \<noteq> []"
      "find is_forbidden_path files = None"
      "list_all is_file_event evs"
      "normalize_files files \<lparr>fs = tree, trace = [Run RevParseShowToplevel p, Chdir (strip (stdout_or_empty p))]\<rparr> = (Inr changed, \<lparr>fs = fsn, trace = [Run RevParseShowToplevel p, Chdir (strip (stdout_or_empty p))] @ evs\<rparr>)"
      "returncode d = 0"
      "strip (stdout_or_empty d) = []"
      "returncode s = 0"
      "returncode q = 0"
      "splitlines False (stdout_or_empty q) = []"
      "main_on files git a (start tree) = (Inr 0, \<lparr>fs = fsn, trace = [Run RevParseShowToplevel p, Chdir (strip (stdout_or_empty p))] @ evs @ [Run DiffCheck d, Run (Add files) s, Run DiffNameOnlyCached q]\<rparr>)"
  | (forbidden_staged) p changed evs fsn d s q where
      "returncode p = 0"
      "strip (stdout_or_empty p) \<noteq> []"
      "find is_forbidden_path files = None"
      "list_all is_file_event evs"
      "normalize_files files \<lparr>fs = tree, trace = [Run RevParseShowToplevel p, Chdir (strip (stdout_or_empty p))]\<rparr> = (Inr changed, \<lparr>fs = fsn, trace = [Run RevParseShowToplevel p, Chdir (strip (stdout_or_empty p))] @ evs\<rparr>)"
      "returncode d = 0"
      "strip (stdout_or_empty d) = []"
      "returncode s = 0"
      "returncode q = 0"
      "splitlines False (stdout_or_empty q) \<noteq> []"
      "filter is_forbidden_path (splitlines False (stdout_or_empty q)) \<noteq> []"
      "main_on files git a (start tree) = (Inr 3, \<lparr>fs = fsn, trace = [Run RevParseShowToplevel p, Chdir (strip (stdout_or_empty p))] @ evs @ [Run DiffCheck d, Run (Add files) s, Run DiffNameOnlyCached q]\<rparr>)"
  | (dry_failed) p changed evs fsn d s q t where
      "returncode p = 0"
      "strip (stdout_or_empty p) \<noteq> []"
      "find is_forbidden_path files = None"
      "list_all is_file_event evs"
      "normalize_files files \<lparr>fs = tree, trace = [Run RevParseShowToplevel p, Chdir (strip (stdout_or_empty p))]\<rparr> = (Inr changed, \<lparr>fs = fsn, trace = [Run RevParseShowToplevel p, Chdir (strip (stdout_or_empty p))] @ evs\<rparr>)"
      "returncode d = 0"
      "strip (stdout_or_empty d) = []"
      "returncode s = 0"
      "returncode q = 0"
      "splitlines False (stdout_or_empty q) \<noteq> []"
      "filter is_forbidden_path (splitlines False (stdout_or_empty q)) = []"
      "dry_run a"
      "returncode t \<noteq> 0"
      "main_on files git a (start tree) = (Inl (SystemExit_code (returncode t)), \<lparr>fs = fsn, trace = [Run RevParseShowToplevel p, Chdir (strip (stdout_or_empty p))] @ evs @ [Run DiffCheck d, Run (Add files) s, Run DiffNameOnlyCached q, Run Status t]\<rparr>)"
  | (dry_done) p changed evs fsn d s q t where
      "returncode p = 0"
      "strip (stdout_or_empty p) \<noteq> []"
      "find is_forbidden_path files = None"
      "list_all is_file_event evs"
      "normalize_files files \<lparr>fs = tree, trace = [Run RevParseShowToplevel p, Chdir (strip (stdout_or_empty p))]\<rparr> = (Inr changed, \<lparr>fs = fsn, trace = [Run RevParseShowToplevel p, Chdir (strip (stdout_or_empty p))] @ evs\<rparr>)"
      "returncode d = 0"
      "strip (stdout_or_empty d) = []"
      "returncode s = 0"
      "returncode q = 0"
      "splitlines False (stdout_or_empty q) \<noteq> []"
      "filter is_forbidden_path (splitlines False (stdout_or_empty q)) = []"
      "dry_run a"
      "returncode t = 0"
      "main_on files git a (start tree) = (Inr 0, \<lparr>fs = fsn, trace = [Run RevParseShowToplevel p, Chdir (strip (stdout_or_empty p))] @ evs @ [Run DiffCheck d, Run (Add files) s, Run DiffNameOnlyCached q, Run Status t]\<rparr>)"
  | (empty_message) p changed evs fsn d s q where
      "returncode p = 0"
      "strip (stdout_or_empty p) \<noteq> []"
      "find is_forbidden_path files = None"
      "list_all is_file_event evs"
      "normalize_files files \<lparr>fs = tree, trace = [Run RevParseShowToplevel p, Chdir (strip (stdout_or_empty p))]\<rparr> = (Inr changed, \<lparr>fs = fsn, trace = [Run RevParseShowToplevel p, Chdir (strip (stdout_or_empty p))] @ evs\<rparr>)"
      "returncode d = 0"
      "strip (stdout_or_empty d) = []"
      "returncode s = 0"
      "returncode q = 0"
      "splitlines False (stdout_or_empty q) \<noteq> []"
      "filter is_forbidden_path (splitlines False (stdout_or_empty q)) = []"
      "\<not> dry_run a"
      "strip (message a) = []"
      "main_on files git a (start tree) = (Inr 4, \<lparr>fs = fsn, trace = [Run RevParseShowToplevel p, Chdir (strip (stdout_or_empty p))] @ evs @ [Run DiffCheck d, Run (Add files) s, Run DiffNameOnlyCached q]\<rparr>)"
  | (commit_failed) p changed evs fsn d s q c where
      "returncode p = 0"
      "strip (stdout_or_empty p) \<noteq> []"
      "find is_forbidden_path files = None"
      "list_all is_file_event evs"
      "normalize_files files \<lparr>fs = tree, trace = [Run RevParseShowToplevel p, Chdir (strip (stdout_or_empty p))]\<rparr> = (Inr changed, \<lparr>fs = fsn, trace = [Run RevParseShowToplevel p, Chdir (strip (stdout_or_empty p))] @ evs\<rparr>)"
      "returncode d = 0"
      "strip (stdout_or_empty d) = []"
      "returncode s = 0"
      "returncode q = 0"
      "splitlines False (stdout_or_empty q) \<noteq> []"
      "filter is_forbidden_path (splitlines False (stdout_or_empty q)) = []"
      "\<not> dry_run a"
      "strip (message a) \<noteq> []"
      "returncode c \<noteq> 0"
      "main_on files git a (start tree) = (Inl (SystemExit_code (returncode c)), \<lparr>fs = fsn, trace = [Run RevParseShowToplevel p, Chdir (strip (stdout_or_empty p))] @ evs @ [Run DiffCheck d, Run (Add files) s, Run DiffNameOnlyCached q, Run (Commit (strip (message a))) c]\<rparr>)"
  | (branch_failed) p changed evs fsn d s q c b where
      "returncode p = 0"
      "strip (stdout_or_empty p) \<noteq> []"
      "find is_forbidden_path files = None"
      "list_all is_file_event evs"
      "normalize_files files \<lparr>fs = tree, trace = [Run RevParseShowToplevel p, Chdir (strip (stdout_or_empty p))]\<rparr> = (Inr changed, \<lparr>fs = fsn, trace = [Run RevParseShowToplevel p, Chdir (strip (stdout_or_empty p))] @ evs\<rparr>)"
      "returncode d = 0"
      "strip (stdout_or_empty d) = []"
      "returncode s = 0"
      "returncode q = 0"
      "splitlines False (stdout_or_empty q) \<noteq> []"
      "filter is_forbidden_path (splitlines False (stdout_or_empty q)) = []"
      "\<not> dry_run a"
      "strip (message a) \<noteq> []"
      "returncode c = 0"
      "returncode b \<noteq> 0"
      "main_on files git a (start tree) = (Inl (SystemExit_code (returncode b)), \<lparr>fs = fsn, trace = [Run RevParseShowToplevel p, Chdir (strip (stdout_or_empty p))] @ evs @ [Run DiffCheck d, Run (Add files) s, Run DiffNameOnlyCached q, Run (Commit (strip (message a))) c, Run RevParseAbbrevRefHead b]\<rparr>)"
  | (branch_blank) p changed evs fsn d s q c b where
      "returncode p = 0"
      "strip (stdout_or_empty p) \<noteq> []"
      "find is_forbidden_path files = None"
      "list_all is_file_event evs"
      "normalize_files files \<lparr>fs = tree, trace = [Run RevParseShowToplevel p, Chdir (strip (stdout_or_empty p))]\<rparr> = (Inr changed, \<lparr>fs = fsn, trace = [Run RevParseShowToplevel p, Chdir (strip (stdout_or_empty p))] @ evs\<rparr>)"
      "returncode d = 0"
      "strip (stdout_or_empty d) = []"
      "returncode s = 0"
      "returncode q = 0"
      "splitlines False (stdout_or_empty q) \<noteq> []"
      "filter is_forbidden_path (splitlines False (stdout_or_empty q)) = []"
      "\<not> dry_run a"
      "strip (message a) \<noteq> []"
      "returncode c = 0"
      "returncode b = 0"
      "strip (stdout_or_empty b) = []"
      "main_on files git a (start tree) = (Inr 5, \<lparr>fs = fsn, trace = [Run RevParseShowToplevel p, Chdir (strip (stdout_or_empty p))] @ evs @ [Run DiffCheck d, Run (Add files) s, Run DiffNameOnlyCached q, Run (Commit (strip (message a))) c, Run RevParseAbbrevRefHead b]\<rparr>)"
  | (push_failed) p changed evs fsn d s q c b u where
      "returncode p = 0"
      "strip (stdout_or_empty p) \<noteq> []"
      "find is_forbidden_path files = None"
      "list_all is_file_event evs"
      "normalize_files files \<lparr>fs = tree, trace = [Run RevParseShowToplevel p, Chdir (strip (stdout_or_empty p))]\<rparr> = (Inr changed, \<lparr>fs = fsn, trace = [Run RevParseShowToplevel p, Chdir (strip (stdout_or_empty p))] @ evs\<rparr>)"
      "returncode d = 0"
      "strip (stdout_or_empty d) = []"
      "returncode s = 0"
      "returncode q = 0"
      "splitlines False (stdout_or_empty q) \<noteq> []"
      "filter is_forbidden_path (splitlines False (stdout_or_empty q)) = []"
      "\<not> dry_run a"
      "strip (message a) \<noteq> []"
      "returncode c = 0"
      "returncode b = 0"
      "strip (stdout_or_empty b) \<noteq> []"
      "returncode u \<noteq> 0"
      "main_on files git a (start tree) = (Inl (SystemExit_code (returncode u)), \<lparr>fs = fsn, trace = [Run RevParseShowToplevel p, Chdir (strip (stdout_or_empty p))] @ evs @ [Run DiffCheck d, Run (Add files) s, Run DiffNameOnlyCached q, Run (Commit (strip (message a))) c, Run RevParseAbbrevRefHead b, Run (Push (py ''origin'') (strip (stdout_or_empty b))) u]\<rparr>)"
  | (pushed) p changed evs fsn d s q c b u where
      "returncode p = 0"
      "strip (stdout_or_empty p) \<noteq> []"
      "find is_forbidden_path files = None"
      "list_all is_file_event evs"
      "normalize_files files \<lparr>fs = tree, trace = [Run RevParseShowToplevel p, Chdir (strip (stdout_or_empty p))]\<rparr> = (Inr changed, \<lparr>fs = fsn, trace = [Run RevParseShowToplevel p, Chdir (strip (stdout_or_empty p))] @ evs\<rparr>)"
      "returncode d = 0"
      "strip (stdout_or_empty d) = []"
      "returncode s = 0"
      "returncode q = 0"
      "splitlines False (stdout_or_empty q) \<noteq> []"
      "filter is_forbidden_path (splitlines False (stdout_or_empty q)) = []"
      "\<not> dry_run a"
      "strip (message a) \<noteq> []"
      "returncode c = 0"
      "returncode b = 0"
      "strip (stdout_or_empty b) \<noteq> []"
      "returncode u = 0"
      "main_on files git a (start tree) = (Inr 0, \<lparr>fs = fsn, trace = [Run RevParseShowToplevel p, Chdir (strip (stdout_or_empty p))] @ evs @ [Run DiffCheck d, Run (Add files) s, Run DiffNameOnlyCached q, Run (Commit (strip (message a))) c, Run RevParseAbbrevRefHead b, Run (Push (py ''origin'') (strip (stdout_or_empty b))) u]\<rparr>)"
  | (root_undecodable)
      "main_on files git a (start tree) = (Inl UnicodeDecodeError, \<lparr>fs = tree, trace = [Undecodable RevParseShowToplevel]\<rparr>)"
  | (check_undecodable) p changed evs fsn where
      "returncode p = 0"
      "strip (stdout_or_empty p) \<noteq> []"
      "find is_forbidden_path files = None"
      "list_all is_file_event evs"
      "normalize_files files \<lparr>fs = tree, trace = [Run RevParseShowToplevel p, Chdir (strip (stdout_or_empty p))]\<rparr> = (Inr changed, \<lparr>fs = fsn, trace = [Run RevParseShowToplevel p, Chdir (strip (stdout_or_empty p))] @ evs\<rparr>)"
      "main_on files git a (start tree) = (Inl UnicodeDecodeError, \<lparr>fs = fsn, trace = [Run RevParseShowToplevel p, Chdir (strip (stdout_or_empty p))] @ evs @ [Undecodable DiffCheck]\<rparr>)"
  | (query_undecodable) p changed evs fsn d s where
      "returncode p = 0"
      "strip (stdout_or_empty p) \<noteq> []"
      "find is_forbidden_path files = None"
      "list_all is_file_event evs"
      "normalize_files files \<lparr>fs = tree, trace = [Run RevParseShowToplevel p, Chdir (strip (stdout_or_empty p))]\<rparr> = (Inr changed, \<lparr>fs = fsn, trace = [Run RevParseShowToplevel p, Chdir (strip (stdout_or_empty p))] @ evs\<rparr>)"
      "returncode d = 0"
      "strip (stdout_or_empty d) = []"
      "returncode s = 0"
      "main_on files git a (start tree) = (Inl UnicodeDecodeError, \<lparr>fs = fsn, trace = [Run RevParseShowToplevel p, Chdir (strip (stdout_or_empty p))] @ evs @ [Run DiffCheck d, Run (Add files) s, Undecodable DiffNameOnlyCached]\<rparr>)"
  | (branch_undecodable) p changed evs fsn d s q c where
      "returncode p = 0"
      "strip (stdout_or_empty p) \<noteq> []"
      "find is_forbidden_path files = None"
      "list_all is_file_event evs"
      "normalize_files files \<lparr>fs = tree, trace = [Run RevParseShowToplevel p, Chdir (strip (stdout_or_empty p))]\<rparr> = (Inr changed, \<lparr>fs = fsn, trace = [Run RevParseShowToplevel p, Chdir (strip (stdout_or_empty p))] @ evs\<rparr>)"
      "returncode d = 0"
      "strip (stdout_or_empty d) = []"
      "returncode s = 0"
      "returncode q = 0"
      "splitlines False (stdout_or_empty q) \<noteq> []"
      "filter is_forbidden_path (splitlines False (stdout_or_empty q)) = []"
      "\<not> dry_run a"
      "strip (message a) \<noteq> []"
      "returncode c = 0"
      "main_on files git a (start tree) = (Inl UnicodeDecodeError, \<lparr>fs = fsn, trace = [Run RevParseShowToplevel p, Chdir (strip (stdout_or_empty p))] @ evs @ [Run DiffCheck d, Run (Add files) s, Run DiffNameOnlyCached q, Run (Commit (strip (message a))) c, Undecodable RevParseAbbrevRefHead]\<rparr>)"
proof (cases rule: main_on_cases[of files git a "start tree"])
  case root_undecodable
  then show ?thesis by (intro that(17)) (simp_all add: log_def start_def)
next
  case (root_failed p)
  then show ?thesis by (intro that(1)[where p=p]) (simp_all add: log_def start_def)
next
  case (root_blank p)
  then show ?thesis by (intro that(2)[where p=p]) (simp_all add: log_def start_def)
next
  case (forbidden_listed p f)
  then show ?thesis by (intro that(3)[where p=p and f=f]) (simp_all add: log_def start_def)
next
  case (normalized p changed evs fsn)
  let ?w3 = "\<lparr>fs = fsn, trace = trace (start tree)
               @ [Run RevParseShowToplevel p, Chdir (strip (stdout_or_empty p))] @ evs\<rparr>"
  note m = \<open>main_on files git a (start tree) = check_and_stage files git a ?w3\<close>
  have n: "normalize_files files \<lparr>fs = tree, trace = [Run RevParseShowToplevel p, Chdir (strip (stdout_or_empty p))]\<rparr>
             = (Inr changed, \<lparr>fs = fsn, trace = [Run RevParseShowToplevel p, Chdir (strip (stdout_or_empty p))] @ evs\<rparr>)"
    using normalized(5) by (simp add: log_def start_def)
  note c = normalized(1-4) n
  show ?thesis
  proof (cases rule: check_and_stage_cases[of files git a ?w3])
    case check_undecodable
    then show ?thesis using c
      by (intro that(18)[where p=p and changed=changed and evs=evs and fsn=fsn]) (simp_all add: log_def m)
  next
    case (query_undecodable d s)
    then show ?thesis using c
      by (intro that(19)[where p=p and changed=changed and evs=evs and fsn=fsn and d=d and s=s]) (simp_all add: log_def m)
  next
    case (whitespace d)
    then show ?thesis using c
      by (intro that(4)[where p=p and changed=changed and evs=evs and fsn=fsn and d=d]) (simp_all add: log_def m)
  next
    case (add_failed d s)
    then show ?thesis using c
      by (intro that(5)[where p=p and changed=changed and evs=evs and fsn=fsn and d=d and s=s]) (simp_all add: log_def m)
  next
    case (query_failed d s q)
    then show ?thesis using c
      by (intro that(6)[where p=p and changed=changed and evs=evs and fsn=fsn and d=d and s=s and q=q]) (simp_all add: log_def m)
  next
    case (nothing_staged d s q)
    then show ?thesis using c
      by (intro that(7)[where p=p and changed=changed and evs=evs and fsn=fsn and d=d and s=s and q=q]) (simp_all add: log_def m)
  next
    case (forbidden_staged d s q)
    then show ?thesis using c
      by (intro that(8)[where p=p and changed=changed and evs=evs and fsn=fsn and d=d and s=s and q=q]) (simp_all add: log_def m)
  next
    case st: (staged d s q)
    let ?w6 = "log (Run DiffNameOnlyCached q) (log (Run (Add files) s) (log (Run DiffCheck d) ?w3))"
    note m' = m[unfolded st(7)]
    show ?thesis
    proof (cases rule: finish_cases[of a git ?w6])
      case (branch_undecodable c)
      then show ?thesis using c st(1-6)
        by (intro that(20)[where p=p and changed=changed and evs=evs and fsn=fsn and d=d and s=s and q=q and c=c]) (simp_all add: log_def m')
    next
      case (dry_failed t)
      then show ?thesis using c st(1-6)
        by (intro that(9)[where p=p and changed=changed and evs=evs and fsn=fsn and d=d and s=s and q=q and t=t]) (simp_all add: log_def m')
    next
      case (dry_done t)
      then show ?thesis using c st(1-6)
        by (intro that(10)[where p=p and changed=changed and evs=evs and fsn=fsn and d=d and s=s and q=q and t=t]) (simp_all add: log_def m')
    next
      case empty_message
      then show ?thesis using c st(1-6)
        by (intro that(11)[where p=p and changed=changed and evs=evs and fsn=fsn and d=d and s=s and q=q]) (simp_all add: log_def m')
    next
      case (commit_failed c)
      then show ?thesis using c st(1-6)
        by (intro that(12)[where p=p and changed=changed and evs=evs and fsn=fsn and d=d and s=s and q=q and c=c]) (simp_all add: log_def m')
    next
      case (branch_failed c b)
      then show ?thesis using c st(1-6)
        by (intro that(13)[where p=p and changed=changed and evs=evs and fsn=fsn and d=d and s=s and q=q and c=c and b=b]) (simp_all add: log_def m')
    next
      case (branch_blank c b)
      then show ?thesis using c st(1-6)
        by (intro that(14)[where p=p and changed=changed and evs=evs and fsn=fsn and d=d and s=s and q=q and c=c and b=b]) (simp_all add: log_def m')
    next
      case (push_failed c b u)
      then show ?thesis using c st(1-6)
        by (intro that(15)[where p=p and changed=changed and evs=evs and fsn=fsn and d=d and s=s and q=q and c=c and b=b and u=u]) (simp_all add: log_def m')
    next
      case (pushed c b u)
      then show ?thesis using c st(1-6)
        by (intro that(16)[where p=p and changed=changed and evs=evs and fsn=fsn and d=d and s=s and q=q and c=c and b=b and u=u]) (simp_all add: log_def m')
    qed
  qed
qed

subsection \<open>What each outcome means\<close>




lemma returns_4_iff:
  "fst (main_on files git a (start tree)) = Inr 4 \<longleftrightarrow>
     \<not> dry_run a \<and> strip (message a) = []
     \<and> (\<exists>q. Run DiffNameOnlyCached q \<in> set (trace (snd (main_on files git a (start tree))))
          \<and> returncode q = 0
          \<and> splitlines False (stdout_or_empty q) \<noteq> []
          \<and> filter is_forbidden_path (splitlines False (stdout_or_empty q)) = [])"
  by (cases rule: main_on_runs[of files git a tree]) (auto simp: run_facts)






lemma exits_with_code_last:
  "fst (main_on files git a (start tree)) = Inl (SystemExit_code n) \<Longrightarrow>
     \<exists>c p. last (trace (snd (main_on files git a (start tree)))) = Run c p \<and> returncode p = n"
  by (cases rule: main_on_runs[of files git a tree]) (auto simp: run_facts)



lemma no_other_exception:
  "fst (main_on files git a (start tree)) \<noteq> Inl UnicodeEncodeError
   \<and> fst (main_on files git a (start tree)) \<noteq> Inl OSError"
  by (cases rule: main_on_runs[of files git a tree]) (auto simp: run_facts)

lemma strip_Nil [simp]: "strip [] = []"
  by (simp add: strip_def)




lemma process_status_simps:
  "process_status (Inr 0) = 0" "process_status (Inr 2) = 2" "process_status (Inr 3) = 3"
  "process_status (Inr 4) = 4" "process_status (Inr 5) = 5"
  "process_status (Inl (SystemExit_msg m)) = 1"
  "process_status (Inl UnicodeDecodeError) = 1"
  "process_status (Inl (SystemExit_code n)) = n mod 256"
  by (simp_all add: process_status_def)

lemma normalize_text_file_fs:
  assumes "fs w = fs w'"
  shows "fst (normalize_text_file path w) = fst (normalize_text_file path w')
         \<and> fs (snd (normalize_text_file path w)) = fs (snd (normalize_text_file path w'))"
  using assms
  by (simp add: normalize_text_file_def write_text_def Let_def
           split: option.splits node.splits)

lemma normalize_files_fs:
  "fs w = fs w' \<Longrightarrow>
   fst (normalize_files files w) = fst (normalize_files files w')
   \<and> fs (snd (normalize_files files w)) = fs (snd (normalize_files files w'))"
proof (induction files arbitrary: w w')
  case Nil
  then show ?case by simp
next
  case (Cons rel rest)
  obtain ch w1 where 1: "normalize_text_file rel w = (Inr ch, w1)"
    using normalize_text_file_returns by blast
  obtain ch' w1' where 2: "normalize_text_file rel w' = (Inr ch', w1')"
    using normalize_text_file_returns by blast
  from normalize_text_file_fs[OF Cons.prems, of rel] 1 2
  have eq: "ch = ch'" "fs w1 = fs w1'" by simp_all
  obtain cs w2 where 3: "normalize_files rest w1 = (Inr cs, w2)"
    using normalize_files_returns by blast
  obtain cs' w2' where 4: "normalize_files rest w1' = (Inr cs', w2')"
    using normalize_files_returns by blast
  from Cons.IH[OF eq(2)] 3 4 have "cs = cs'" "fs w2 = fs w2'" by simp_all
  then show ?case using 1 2 3 4 eq by simp
qed

lemma normalized_tree:
  assumes "normalize_files files \<lparr>fs = tree, trace = tr\<rparr> = (r, \<lparr>fs = fsn, trace = tr'\<rparr>)"
  shows "fsn = fs (snd (normalize_files files (start tree)))"
  using normalize_files_fs[of "\<lparr>fs = tree, trace = tr\<rparr>" "start tree" files] assms by simp

lemma dry_run_quiet:
  assumes "dry_run a"
  shows "\<not> list_ex is_commit (trace (snd (main_on files git a (start tree))))
         \<and> \<not> list_ex is_push (trace (snd (main_on files git a (start tree))))"
  by (cases rule: main_on_runs[of files git a tree]) (use assms in \<open>auto simp: run_facts\<close>)

lemma dry_run_reached:
  assumes "dry_run a"
    and "Run Status t \<in> set (trace (snd (main_on files git a (start tree))))"
  shows "fs (snd (main_on files git a (start tree))) = fs (snd (normalize_files files (start tree)))
         \<and> (\<exists>s. Run (Add files) s \<in> set (trace (snd (main_on files git a (start tree))))
                \<and> returncode s = 0)
         \<and> fst (main_on files git a (start tree))
             = (if returncode t = 0 then Inr 0 else Inl (SystemExit_code (returncode t)))"
  by (cases rule: main_on_runs[of files git a tree])
     (use assms in \<open>auto simp: run_facts dest: normalized_tree\<close>)

lemma blank_message_no_commit:
  assumes "strip (message a) = []"
  shows "\<not> list_ex is_commit (trace (snd (main_on files git a (start tree))))"
  by (cases rule: main_on_runs[of files git a tree]) (use assms in \<open>auto simp: run_facts\<close>)

lemma finish_ignores_message:
  "dry_run a \<Longrightarrow> finish git (a\<lparr>message := m\<rparr>) w = finish git a w"
  by (simp add: finish_def)

lemma check_and_stage_ignores_message:
  "dry_run a \<Longrightarrow>
   check_and_stage files git (a\<lparr>message := m\<rparr>) w = check_and_stage files git a w"
  by (simp add: check_and_stage_def finish_ignores_message cong: if_cong)

lemma dry_run_ignores_message:
  assumes "dry_run a"
  shows "main_on files git (a\<lparr>message := m\<rparr>) w = main_on files git a w"
  using assms
  by (simp add: main_on_phases check_and_stage_ignores_message cong: option.case_cong if_cong)

lemma dry_run_not_4:
  assumes "dry_run a"
  shows "fst (main_on files git a (start tree)) \<noteq> Inr 4"
  unfolding returns_4_iff using assms by simp

subsection \<open>Example runs\<close>

lemmas run_defs = main_on_def repo_root_def run_def log_def and_then_def stdout_or_empty_def
  strip_def is_space_def splitlines_def is_linebreak_def is_forbidden_path_def
  startswith_any_def FORBIDDEN_PATH_PREFIXES_def py_def example_git_def answering_def
  normalize_text_file_def start_def Let_def

lemma example_run:
  "main_on [py ''a.txt''] example_git \<lparr>message = py ''fix'', dry_run = False\<rparr> (start Map.empty)
   = (Inr 0,
      \<lparr>fs = Map.empty,
        trace = [Run RevParseShowToplevel \<lparr>returncode = 0, stdout = Some (py ''/repo'' @ [0x0A])\<rparr>,
                 Chdir (py ''/repo''),
                 Run DiffCheck \<lparr>returncode = 0, stdout = Some []\<rparr>,
                 Run (Add [py ''a.txt'']) \<lparr>returncode = 0, stdout = None\<rparr>,
                 Run DiffNameOnlyCached \<lparr>returncode = 0, stdout = Some (py ''a.txt'' @ [0x0A])\<rparr>,
                 Run (Commit (py ''fix'')) \<lparr>returncode = 0, stdout = None\<rparr>,
                 Run RevParseAbbrevRefHead \<lparr>returncode = 0, stdout = Some (py ''main'' @ [0x0A])\<rparr>,
                 Run (Push (py ''origin'') (py ''main'')) \<lparr>returncode = 0, stdout = None\<rparr>]\<rparr>)"
  by (simp add: run_defs)

lemma allowlist_clean: "\<not> list_ex is_forbidden_path FILES_TO_STAGE"
  by (simp add: FILES_TO_STAGE_def is_forbidden_path_def startswith_any_def
        FORBIDDEN_PATH_PREFIXES_def py_def)



lemma run_nothing_staged:
  "main_on [py ''a.txt''] (answering DiffNameOnlyCached (0, Some []) example_git)
     \<lparr>message = py ''fix'', dry_run = False\<rparr> (start Map.empty)
   = (Inr 0,
      \<lparr>fs = Map.empty,
        trace = [Run RevParseShowToplevel \<lparr>returncode = 0, stdout = Some (py ''/repo'' @ [0x0A])\<rparr>,
                 Chdir (py ''/repo''),
                 Run DiffCheck \<lparr>returncode = 0, stdout = Some []\<rparr>,
                 Run (Add [py ''a.txt'']) \<lparr>returncode = 0, stdout = None\<rparr>,
                 Run DiffNameOnlyCached \<lparr>returncode = 0, stdout = Some []\<rparr>]\<rparr>)"
  by (simp add: run_defs)

lemma run_dry:
  "main_on [py ''a.txt''] example_git \<lparr>message = py ''   '', dry_run = True\<rparr>
     (start [py ''a.txt'' \<mapsto> RegularFile [0x61, 0x20, 0x0D, 0x0A]])
   = (Inr 0,
      \<lparr>fs = [py ''a.txt'' \<mapsto> RegularFile [0x61, 0x0A]],
        trace = [Run RevParseShowToplevel \<lparr>returncode = 0, stdout = Some (py ''/repo'' @ [0x0A])\<rparr>,
                 Chdir (py ''/repo''),
                 ReadBytes (py ''a.txt''),
                 WriteText (py ''a.txt'') [0x61, 0x0A],
                 Run DiffCheck \<lparr>returncode = 0, stdout = Some []\<rparr>,
                 Run (Add [py ''a.txt'']) \<lparr>returncode = 0, stdout = None\<rparr>,
                 Run DiffNameOnlyCached \<lparr>returncode = 0, stdout = Some (py ''a.txt'' @ [0x0A])\<rparr>,
                 Run Status \<lparr>returncode = 0, stdout = None\<rparr>]\<rparr>)"
  by (simp add: run_defs write_text_def eval_defs)

lemma run_status_fails:
  "main_on [py ''a.txt''] (answering Status (128, Some []) example_git)
     \<lparr>message = py ''   '', dry_run = True\<rparr> (start Map.empty)
   = (Inl (SystemExit_code 128),
      \<lparr>fs = Map.empty,
        trace = [Run RevParseShowToplevel \<lparr>returncode = 0, stdout = Some (py ''/repo'' @ [0x0A])\<rparr>,
                 Chdir (py ''/repo''),
                 Run DiffCheck \<lparr>returncode = 0, stdout = Some []\<rparr>,
                 Run (Add [py ''a.txt'']) \<lparr>returncode = 0, stdout = None\<rparr>,
                 Run DiffNameOnlyCached \<lparr>returncode = 0, stdout = Some (py ''a.txt'' @ [0x0A])\<rparr>,
                 Run Status \<lparr>returncode = 128, stdout = None\<rparr>]\<rparr>)"
  by (simp add: run_defs)

lemma run_blank_message:
  "main_on [py ''a.txt''] example_git \<lparr>message = py ''   '', dry_run = False\<rparr> (start Map.empty)
   = (Inr 4,
      \<lparr>fs = Map.empty,
        trace = [Run RevParseShowToplevel \<lparr>returncode = 0, stdout = Some (py ''/repo'' @ [0x0A])\<rparr>,
                 Chdir (py ''/repo''),
                 Run DiffCheck \<lparr>returncode = 0, stdout = Some []\<rparr>,
                 Run (Add [py ''a.txt'']) \<lparr>returncode = 0, stdout = None\<rparr>,
                 Run DiffNameOnlyCached
                   \<lparr>returncode = 0, stdout = Some (py ''a.txt'' @ [0x0A])\<rparr>]\<rparr>)"
  by (simp add: run_defs)

lemma run_env_staged:
  "main_on [py ''a.txt''] (answering DiffNameOnlyCached (0, Some (py ''.env'' @ [0x0A])) example_git)
     \<lparr>message = py ''   '', dry_run = d\<rparr> (start Map.empty)
   = (Inr 3,
      \<lparr>fs = Map.empty,
        trace = [Run RevParseShowToplevel \<lparr>returncode = 0, stdout = Some (py ''/repo'' @ [0x0A])\<rparr>,
                 Chdir (py ''/repo''),
                 Run DiffCheck \<lparr>returncode = 0, stdout = Some []\<rparr>,
                 Run (Add [py ''a.txt'']) \<lparr>returncode = 0, stdout = None\<rparr>,
                 Run DiffNameOnlyCached
                   \<lparr>returncode = 0, stdout = Some (py ''.env'' @ [0x0A])\<rparr>]\<rparr>)"
  by (simp add: run_defs)




section \<open>The claims\<close>




text \<open>
  C2, as the claim states it, fails on two inputs. A file with CR LF whose bytes are not
  UTF-8 (\<open>FF 0D 0A\<close>) is skipped and keeps its CR LF. A file that ends in a blank
  partial line (\<open>a CR LF space\<close>) had no line terminator at its end and has one after
  normalisation (\<open>a LF\<close>), because the partial line is stripped to nothing.
\<close>

theorem crlf_claim_counterexample:
  "has_crlf [0xFF, 0x0D, 0x0A]
   \<and> normalize_text_file (py ''f'') (start [py ''f'' \<mapsto> RegularFile [0xFF, 0x0D, 0x0A]])
       = (Inr False, \<lparr>fs = [py ''f'' \<mapsto> RegularFile [0xFF, 0x0D, 0x0A]],
                       trace = [ReadBytes (py ''f'')]\<rparr>)
   \<and> has_crlf [0x61, 0x0D, 0x0A, 0x20]
   \<and> \<not> ends_with_LF [0x61, 0x0D, 0x0A, 0x20]
   \<and> normalize_text_file (py ''f'') (start [py ''f'' \<mapsto> RegularFile [0x61, 0x0D, 0x0A, 0x20]])
       = (Inr True, \<lparr>fs = [py ''f'' \<mapsto> RegularFile [0x61, 0x0A]],
                      trace = [ReadBytes (py ''f''), WriteText (py ''f'') [0x61, 0x0A]]\<rparr>)
   \<and> ends_with_LF [0x61, 0x0A]"
proof -
  have a: "clean_bytes [0xFF, 0x0D, 0x0A] = None" by (simp add: eval_defs)
  have b: "clean_bytes [0x61, 0x0D, 0x0A, 0x20] = Some [0x61, 0x0A]" by (simp add: eval_defs)
  have 1: "normalize_text_file (py ''f'') (start [py ''f'' \<mapsto> RegularFile [0xFF, 0x0D, 0x0A]])
       = (Inr False, \<lparr>fs = [py ''f'' \<mapsto> RegularFile [0xFF, 0x0D, 0x0A]],
                       trace = [ReadBytes (py ''f'')]\<rparr>)"
    by (simp add: normalize_text_file_regular start_def a log_def)
  have 2: "normalize_text_file (py ''f'') (start [py ''f'' \<mapsto> RegularFile [0x61, 0x0D, 0x0A, 0x20]])
       = (Inr True, \<lparr>fs = [py ''f'' \<mapsto> RegularFile [0x61, 0x0A]],
                      trace = [ReadBytes (py ''f''), WriteText (py ''f'') [0x61, 0x0A]]\<rparr>)"
    by (simp add: normalize_text_file_regular start_def b write_text_def log_def)
  show ?thesis using 1 2 by (simp add: ends_with_LF_def)
qed

text \<open>
  C2, amended. For every regular file whose bytes contain CR LF and, after the
  replacement of CR LF, decode as UTF-8: the file is rewritten and reported changed, the
  new bytes contain no carriage return at all (so no CR LF), and they end with a line feed
  exactly when the original bytes, with their trailing spaces, tabs and carriage returns
  removed, end with a line feed.
\<close>

theorem crlf_file_normalized:
  assumes "fs w path = Some (RegularFile raw)"
    and "has_crlf raw" and "utf8_decode (replace_crlf raw) \<noteq> None"
  shows "\<exists>out. normalize_text_file path w
                 = (Inr True, write_text path out (w\<lparr>trace := trace w @ [ReadBytes path]\<rparr>))
               \<and> 0x0D \<notin> set out \<and> \<not> has_crlf out
               \<and> (ends_with_LF out \<longleftrightarrow> ends_with_LF (rstrip [0x20, 0x09, 0x0D] raw))"
proof -
  from assms(3) obtain out where out: "clean_bytes raw = Some out"
    by (cases "clean_bytes raw") (auto simp: clean_bytes_None)
  have noCR: "0x0D \<notin> set out" using out by (rule clean_bytes_no_CR)
  then have ne: "out \<noteq> raw" using has_crlf_CR[OF assms(2)] by auto
  have "normalize_text_file path w
          = (Inr True, write_text path out (w\<lparr>trace := trace w @ [ReadBytes path]\<rparr>))"
    using out ne by (simp add: normalize_text_file_regular[OF assms(1)] log_def)
  moreover have "\<not> has_crlf out" using noCR has_crlf_CR by blast
  moreover have "ends_with_LF out \<longleftrightarrow> ends_with_LF (rstrip [0x20, 0x09, 0x0D] raw)"
    using out by (rule clean_bytes_final_LF)
  ultimately show ?thesis using noCR by blast
qed

theorem crlf_file_normalized_witness:
  "fs (start [py ''f'' \<mapsto> RegularFile [0x61, 0x20, 0x0D, 0x0A]]) (py ''f'')
     = Some (RegularFile [0x61, 0x20, 0x0D, 0x0A])
   \<and> has_crlf [0x61, 0x20, 0x0D, 0x0A]
   \<and> utf8_decode (replace_crlf [0x61, 0x20, 0x0D, 0x0A]) \<noteq> None
   \<and> (\<exists>out. normalize_text_file (py ''f'') (start [py ''f'' \<mapsto> RegularFile [0x61, 0x20, 0x0D, 0x0A]])
               = (Inr True, write_text (py ''f'') out
                   (start [py ''f'' \<mapsto> RegularFile [0x61, 0x20, 0x0D, 0x0A]]
                      \<lparr>trace := trace (start [py ''f'' \<mapsto> RegularFile [0x61, 0x20, 0x0D, 0x0A]])
                                 @ [ReadBytes (py ''f'')]\<rparr>))
             \<and> 0x0D \<notin> set out \<and> \<not> has_crlf out
             \<and> (ends_with_LF out
                  \<longleftrightarrow> ends_with_LF (rstrip [0x20, 0x09, 0x0D] [0x61, 0x20, 0x0D, 0x0A])))"
proof -
  let ?w = "start [py ''f'' \<mapsto> RegularFile [0x61, 0x20, 0x0D, 0x0A]]"
  have h1: "fs ?w (py ''f'') = Some (RegularFile [0x61, 0x20, 0x0D, 0x0A])"
    by (simp add: start_def)
  have h2: "has_crlf [0x61, 0x20, 0x0D, 0x0A]" by simp
  have h3: "utf8_decode (replace_crlf [0x61, 0x20, 0x0D, 0x0A]) \<noteq> None"
    by (simp add: eval_defs)
  from crlf_file_normalized[OF h1 h2 h3] h1 h2 h3 show ?thesis by blast
qed

text \<open>
  C3. For every list of files to stage in which some path starts with a forbidden prefix
  (\<open>.env\<close> or \<open>server/data/\<close>), the run ends with an exception and a non-zero exit
  status before normalisation runs: no file has been read or written, and the working tree
  is the one the run started with.
\<close>

theorem forbidden_allowlist_aborts:
  assumes "list_ex is_forbidden_path files"
  shows "case main_on files git a (start fs0) of
           (r, w) \<Rightarrow> (\<exists>e. r = Inl e) \<and> exit_status r \<noteq> 0
                     \<and> fs w = fs0 \<and> \<not> list_ex is_file_event (trace w)"
proof -
  from assms obtain f where f: "find is_forbidden_path files = Some f"
    by (cases "find is_forbidden_path files") (auto simp: find_None_iff list_ex_iff)
  show ?thesis
    by (cases rule: repo_root_cases[of git "start fs0"])
       (simp_all add: main_on_def f start_def)
qed

theorem forbidden_allowlist_aborts_witness:
  "list_ex is_forbidden_path [py ''.env'']
   \<and> (case main_on [py ''.env''] (\<lambda>w c. (0, Some (py ''/r''))) \<lparr>message = [], dry_run = False\<rparr>
              (start (\<lambda>p. None)) of
         (r, w) \<Rightarrow> (\<exists>e. r = Inl e) \<and> exit_status r \<noteq> 0
                   \<and> fs w = (\<lambda>p. None) \<and> \<not> list_ex is_file_event (trace w))"
proof -
  have h: "list_ex is_forbidden_path [py ''.env'']"
    by (simp add: is_forbidden_path_def startswith_any_def FORBIDDEN_PATH_PREFIXES_def py_def)
  from h forbidden_allowlist_aborts[OF h] show ?thesis by (rule conjI)
qed

text \<open>
  C4, as the claim states it, fails in its last part: a dry run that reaches the
  short-circuit runs the status command there, and when that command exits with 128 the
  run ends with exit status 128, not 0.
\<close>

theorem dry_run_claim_counterexample:
  "dry_run \<lparr>message = py ''   '', dry_run = True\<rparr>
   \<and> Run Status \<lparr>returncode = 128, stdout = None\<rparr>
       \<in> set (trace (snd (main_on [py ''a.txt''] (answering Status (128, Some []) example_git)
                            \<lparr>message = py ''   '', dry_run = True\<rparr> (start Map.empty))))
   \<and> exit_status (fst (main_on [py ''a.txt''] (answering Status (128, Some []) example_git)
                          \<lparr>message = py ''   '', dry_run = True\<rparr> (start Map.empty))) = 128"
  by (simp add: run_status_fails)

text \<open>
  C4, amended. In a dry run no commit and no push command is ever run, whatever is
  staged. When the run reaches the dry-run short-circuit (the status command has been
  run), the working tree is the normalised one and the add command has been run with
  status 0; the run then returns 0 if the status command exits with 0, and otherwise ends
  with the exit status of the status command.
\<close>

theorem dry_run_never_commits:
  assumes "dry_run a"
  shows "\<not> list_ex is_commit (trace (snd (main_on files git a (start tree))))
         \<and> \<not> list_ex is_push (trace (snd (main_on files git a (start tree))))
         \<and> (\<forall>t. Run Status t \<in> set (trace (snd (main_on files git a (start tree)))) \<longrightarrow>
               fs (snd (main_on files git a (start tree)))
                 = fs (snd (normalize_files files (start tree)))
               \<and> (\<exists>s. Run (Add files) s \<in> set (trace (snd (main_on files git a (start tree))))
                      \<and> returncode s = 0)
               \<and> fst (main_on files git a (start tree))
                   = (if returncode t = 0 then Inr 0
                      else Inl (SystemExit_code (returncode t))))"
  using dry_run_quiet[OF assms] dry_run_reached[OF assms] by blast

theorem dry_run_never_commits_witness:
  "dry_run \<lparr>message = py ''   '', dry_run = True\<rparr>
   \<and> \<not> list_ex is_commit
         (trace (snd (main_on [py ''a.txt''] example_git \<lparr>message = py ''   '', dry_run = True\<rparr>
                        (start [py ''a.txt'' \<mapsto> RegularFile [0x61, 0x20, 0x0D, 0x0A]]))))
   \<and> \<not> list_ex is_push
         (trace (snd (main_on [py ''a.txt''] example_git \<lparr>message = py ''   '', dry_run = True\<rparr>
                        (start [py ''a.txt'' \<mapsto> RegularFile [0x61, 0x20, 0x0D, 0x0A]]))))
   \<and> Run Status \<lparr>returncode = 0, stdout = None\<rparr>
       \<in> set (trace (snd (main_on [py ''a.txt''] example_git
                            \<lparr>message = py ''   '', dry_run = True\<rparr>
                            (start [py ''a.txt'' \<mapsto> RegularFile [0x61, 0x20, 0x0D, 0x0A]]))))
   \<and> fs (snd (main_on [py ''a.txt''] example_git \<lparr>message = py ''   '', dry_run = True\<rparr>
                 (start [py ''a.txt'' \<mapsto> RegularFile [0x61, 0x20, 0x0D, 0x0A]])))
       = fs (snd (normalize_files [py ''a.txt'']
                    (start [py ''a.txt'' \<mapsto> RegularFile [0x61, 0x20, 0x0D, 0x0A]])))
   \<and> fst (main_on [py ''a.txt''] example_git \<lparr>message = py ''   '', dry_run = True\<rparr>
            (start [py ''a.txt'' \<mapsto> RegularFile [0x61, 0x20, 0x0D, 0x0A]])) = Inr 0"
proof -
  let ?a = "\<lparr>message = py ''   '', dry_run = True\<rparr>"
  let ?tree = "[py ''a.txt'' \<mapsto> RegularFile [0x61, 0x20, 0x0D, 0x0A]]"
  let ?R = "main_on [py ''a.txt''] example_git ?a (start ?tree)"
  let ?t = "\<lparr>returncode = 0, stdout = None\<rparr> :: proc"
  have h: "dry_run ?a" by simp
  note T = dry_run_never_commits[OF h, of "[py ''a.txt'']" example_git ?tree]
  have m: "Run Status ?t \<in> set (trace (snd ?R))" by (simp add: run_dry)
  from T have q: "\<not> list_ex is_commit (trace (snd ?R))" "\<not> list_ex is_push (trace (snd ?R))"
    by blast+
  from T have "Run Status ?t \<in> set (trace (snd ?R)) \<longrightarrow>
      fs (snd ?R) = fs (snd (normalize_files [py ''a.txt''] (start ?tree)))
      \<and> (\<exists>s. Run (Add [py ''a.txt'']) s \<in> set (trace (snd ?R)) \<and> returncode s = 0)
      \<and> fst ?R = (if returncode ?t = 0 then Inr 0 else Inl (SystemExit_code (returncode ?t)))"
    by blast
  with m have "fs (snd ?R) = fs (snd (normalize_files [py ''a.txt''] (start ?tree)))"
    "fst ?R = (if returncode ?t = 0 then Inr 0 else Inl (SystemExit_code (returncode ?t)))"
    by blast+
  then have "fs (snd ?R) = fs (snd (normalize_files [py ''a.txt''] (start ?tree)))"
    "fst ?R = Inr 0"
    by simp_all
  with h q m show ?thesis by blast
qed

text \<open>
  C5. When the query for the staged names, which follows the stage operation, succeeds
  and lists no name, \<open>main\<close> returns 0 and neither a commit nor a push command has
  been run.
\<close>

theorem nothing_staged_exits_zero:
  assumes "Run DiffNameOnlyCached q \<in> set (trace (snd (main_on files git a (start tree))))"
    and "returncode q = 0"
    and "splitlines False (stdout_or_empty q) = []"
  shows "fst (main_on files git a (start tree)) = Inr 0
         \<and> \<not> list_ex is_commit (trace (snd (main_on files git a (start tree))))
         \<and> \<not> list_ex is_push (trace (snd (main_on files git a (start tree))))"
  by (cases rule: main_on_runs[of files git a tree]) (use assms in \<open>auto simp: run_facts\<close>)

theorem nothing_staged_exits_zero_witness:
  "Run DiffNameOnlyCached \<lparr>returncode = 0, stdout = Some []\<rparr>
     \<in> set (trace (snd (main_on [py ''a.txt''] (answering DiffNameOnlyCached (0, Some []) example_git)
                          \<lparr>message = py ''fix'', dry_run = False\<rparr> (start Map.empty))))
   \<and> returncode \<lparr>returncode = 0, stdout = Some []\<rparr> = 0
   \<and> splitlines False (stdout_or_empty \<lparr>returncode = 0, stdout = Some []\<rparr>) = []
   \<and> fst (main_on [py ''a.txt''] (answering DiffNameOnlyCached (0, Some []) example_git)
            \<lparr>message = py ''fix'', dry_run = False\<rparr> (start Map.empty)) = Inr 0
   \<and> \<not> list_ex is_commit
         (trace (snd (main_on [py ''a.txt''] (answering DiffNameOnlyCached (0, Some []) example_git)
                        \<lparr>message = py ''fix'', dry_run = False\<rparr> (start Map.empty))))
   \<and> \<not> list_ex is_push
         (trace (snd (main_on [py ''a.txt''] (answering DiffNameOnlyCached (0, Some []) example_git)
                        \<lparr>message = py ''fix'', dry_run = False\<rparr> (start Map.empty))))"
proof -
  let ?q = "\<lparr>returncode = 0, stdout = Some []\<rparr> :: proc"
  let ?R = "main_on [py ''a.txt''] (answering DiffNameOnlyCached (0, Some []) example_git)
              \<lparr>message = py ''fix'', dry_run = False\<rparr> (start Map.empty)"
  have h1: "Run DiffNameOnlyCached ?q \<in> set (trace (snd ?R))"
    by (simp add: run_nothing_staged)
  have h2: "returncode ?q = 0" by simp
  have h3: "splitlines False (stdout_or_empty ?q) = []"
    by (simp add: splitlines_def stdout_or_empty_def)
  from nothing_staged_exits_zero[OF h1 h2 h3] h1 h2 h3 show ?thesis by blast
qed

text \<open>
  C6, as the claim states it, fails: outside a dry run, with a blank message and the
  staged name \<open>.env\<close>, the run ends with status 3, not 4, since the forbidden-path
  check on the staged names comes before the message check.
\<close>

theorem blank_message_claim_counterexample:
  "\<not> dry_run \<lparr>message = py ''   '', dry_run = False\<rparr>
   \<and> strip (message \<lparr>message = py ''   '', dry_run = False\<rparr>) = []
   \<and> Run DiffNameOnlyCached \<lparr>returncode = 0, stdout = Some (py ''.env'' @ [0x0A])\<rparr>
       \<in> set (trace (snd (main_on [py ''a.txt'']
              (answering DiffNameOnlyCached (0, Some (py ''.env'' @ [0x0A])) example_git)
              \<lparr>message = py ''   '', dry_run = False\<rparr> (start Map.empty))))
   \<and> splitlines False (py ''.env'' @ [0x0A]) = [py ''.env'']
   \<and> exit_status (fst (main_on [py ''a.txt'']
              (answering DiffNameOnlyCached (0, Some (py ''.env'' @ [0x0A])) example_git)
              \<lparr>message = py ''   '', dry_run = False\<rparr> (start Map.empty))) = 3"
  by (simp add: run_env_staged) (simp add: strip_def is_space_def splitlines_def is_linebreak_def py_def)

text \<open>
  C6, amended. Outside a dry run, with a message that is empty after stripping white
  space, with staged names present and none of them forbidden, \<open>main\<close> returns 4 and
  no commit command has been run.
\<close>

theorem blank_message_exits_4:
  assumes "\<not> dry_run a" and "strip (message a) = []"
    and "Run DiffNameOnlyCached q \<in> set (trace (snd (main_on files git a (start tree))))"
    and "returncode q = 0"
    and "splitlines False (stdout_or_empty q) \<noteq> []"
    and "filter is_forbidden_path (splitlines False (stdout_or_empty q)) = []"
  shows "fst (main_on files git a (start tree)) = Inr 4
         \<and> exit_status (fst (main_on files git a (start tree))) = 4
         \<and> \<not> list_ex is_commit (trace (snd (main_on files git a (start tree))))"
proof -
  have "fst (main_on files git a (start tree)) = Inr 4"
    unfolding returns_4_iff using assms by blast
  then show ?thesis using blank_message_no_commit[OF assms(2)] by simp
qed

theorem blank_message_exits_4_witness:
  "\<not> dry_run \<lparr>message = py ''   '', dry_run = False\<rparr>
   \<and> strip (message \<lparr>message = py ''   '', dry_run = False\<rparr>) = []
   \<and> Run DiffNameOnlyCached \<lparr>returncode = 0, stdout = Some (py ''a.txt'' @ [0x0A])\<rparr>
       \<in> set (trace (snd (main_on [py ''a.txt''] example_git
                            \<lparr>message = py ''   '', dry_run = False\<rparr> (start Map.empty))))
   \<and> splitlines False (py ''a.txt'' @ [0x0A]) = [py ''a.txt'']
   \<and> filter is_forbidden_path [py ''a.txt''] = []
   \<and> fst (main_on [py ''a.txt''] example_git
            \<lparr>message = py ''   '', dry_run = False\<rparr> (start Map.empty)) = Inr 4
   \<and> exit_status (fst (main_on [py ''a.txt''] example_git
            \<lparr>message = py ''   '', dry_run = False\<rparr> (start Map.empty))) = 4
   \<and> \<not> list_ex is_commit
         (trace (snd (main_on [py ''a.txt''] example_git
                        \<lparr>message = py ''   '', dry_run = False\<rparr> (start Map.empty))))"
proof -
  let ?a = "\<lparr>message = py ''   '', dry_run = False\<rparr>"
  let ?q = "\<lparr>returncode = 0, stdout = Some (py ''a.txt'' @ [0x0A])\<rparr>"
  let ?R = "main_on [py ''a.txt''] example_git ?a (start Map.empty)"
  have h1: "\<not> dry_run ?a" by simp
  have h2: "strip (message ?a) = []" by (simp add: strip_def is_space_def py_def)
  have h3: "Run DiffNameOnlyCached ?q \<in> set (trace (snd ?R))" by (simp add: run_blank_message)
  have h4: "returncode ?q = 0" by simp
  have l: "splitlines False (py ''a.txt'' @ [0x0A]) = [py ''a.txt'']"
    by (simp add: splitlines_def is_linebreak_def py_def)
  have nf: "\<not> is_forbidden_path (py ''a.txt'')"
    by (simp add: is_forbidden_path_def startswith_any_def FORBIDDEN_PATH_PREFIXES_def py_def)
  have f: "filter is_forbidden_path [py ''a.txt''] = []"
    by (simp add: nf)
  have h5: "splitlines False (stdout_or_empty ?q) \<noteq> []"
    by (simp add: stdout_or_empty_def l)
  have h6: "filter is_forbidden_path (splitlines False (stdout_or_empty ?q)) = []"
    by (simp add: stdout_or_empty_def l nf)
  from blank_message_exits_4[OF h1 h2 h3 h4 h5 h6] h1 h2 h3 l f show ?thesis by blast
qed




text \<open>
  C8. For every regular file whose bytes contain no carriage return and in which no
  space or tab stands directly before a line feed or at the end, \<open>normalize_text_file\<close>
  returns \<open>False\<close>; the working tree is unchanged and nothing is written (the only
  event is the read).
\<close>

theorem clean_file_unchanged:
  assumes "fs w path = Some (RegularFile raw)"
    and "0x0D \<notin> set raw" and "no_trailing_whitespace raw"
  shows "normalize_text_file path w = (Inr False, w\<lparr>trace := trace w @ [ReadBytes path]\<rparr>)"
proof (cases "clean_bytes raw")
  case None
  then show ?thesis using assms(1) by (simp add: normalize_text_file_regular log_def)
next
  case (Some out)
  then have "out = raw" using assms(2,3) by (intro clean_bytes_unchanged)
  then show ?thesis using assms(1) Some by (simp add: normalize_text_file_regular log_def)
qed

theorem clean_file_unchanged_witness:
  "fs (start [py ''f'' \<mapsto> RegularFile [0x61, 0x0A, 0x62]]) (py ''f'')
     = Some (RegularFile [0x61, 0x0A, 0x62])
   \<and> 0x0D \<notin> set [0x61, 0x0A, 0x62 :: byte]
   \<and> no_trailing_whitespace [0x61, 0x0A, 0x62]
   \<and> normalize_text_file (py ''f'') (start [py ''f'' \<mapsto> RegularFile [0x61, 0x0A, 0x62]])
       = (Inr False, \<lparr>fs = [py ''f'' \<mapsto> RegularFile [0x61, 0x0A, 0x62]],
                       trace = [ReadBytes (py ''f'')]\<rparr>)"
proof -
  let ?w = "start [py ''f'' \<mapsto> RegularFile [0x61, 0x0A, 0x62]]"
  have h1: "fs ?w (py ''f'') = Some (RegularFile [0x61, 0x0A, 0x62])" by (simp add: start_def)
  have h2: "0x0D \<notin> set [0x61, 0x0A, 0x62 :: byte]" by simp
  have h3: "no_trailing_whitespace [0x61, 0x0A, 0x62]" by simp
  have "normalize_text_file (py ''f'') ?w
          = (Inr False, ?w\<lparr>trace := trace ?w @ [ReadBytes (py ''f'')]\<rparr>)"
    using h1 h2 h3 by (rule clean_file_unchanged)
  then show ?thesis using h1 h2 h3 by (simp add: start_def)
qed

text \<open>
  C9. The transform is idempotent: when the bytes of a file are cleaned to \<open>out\<close>,
  cleaning \<open>out\<close> gives \<open>out\<close> again; and after \<open>normalize_text_file\<close> has run on a
  path, a second run on the same path returns \<open>False\<close> and leaves the working tree as
  it is.
\<close>

theorem normalization_idempotent:
  "(clean_bytes raw = Some out \<longrightarrow> clean_bytes out = Some out)
   \<and> (case normalize_text_file path w of
         (r, w1) \<Rightarrow> \<exists>w2. normalize_text_file path w1 = (Inr False, w2) \<and> fs w2 = fs w1)"
proof (intro conjI impI)
  assume "clean_bytes raw = Some out"
  then show "clean_bytes out = Some out" by (rule clean_bytes_idem)
next
  show "case normalize_text_file path w of
          (r, w1) \<Rightarrow> \<exists>w2. normalize_text_file path w1 = (Inr False, w2) \<and> fs w2 = fs w1"
    by (rule normalize_text_file_again)
qed

theorem normalization_idempotent_witness:
  "clean_bytes [0x61, 0x0D, 0x0A, 0x20] = Some [0x61, 0x0A]
   \<and> clean_bytes [0x61, 0x0A] = Some [0x61, 0x0A]"
proof -
  have h: "clean_bytes [0x61, 0x0D, 0x0A, 0x20] = Some [0x61, 0x0A]"
    by (simp add: eval_defs)
  with normalization_idempotent[of "[0x61, 0x0D, 0x0A, 0x20]" "[0x61, 0x0A]", THEN conjunct1]
  have "clean_bytes [0x61, 0x0A] = Some [0x61, 0x0A]" by (rule mp)
  with h show ?thesis by (rule conjI)
qed

text \<open>
  C10, as the claim states it, fails: a dry run with a blank message and staged changes
  ends with status 3 when a staged name is forbidden (\<open>.env\<close>), and with status 128
  when the status command of the short-circuit exits with 128; in neither case with 0.
\<close>

theorem message_check_claim_counterexample:
  "strip (py ''   '') = []
   \<and> splitlines False (py ''.env'' @ [0x0A]) = [py ''.env'']
   \<and> Run DiffNameOnlyCached \<lparr>returncode = 0, stdout = Some (py ''.env'' @ [0x0A])\<rparr>
       \<in> set (trace (snd (main_on [py ''a.txt'']
              (answering DiffNameOnlyCached (0, Some (py ''.env'' @ [0x0A])) example_git)
              \<lparr>message = py ''   '', dry_run = True\<rparr> (start Map.empty))))
   \<and> exit_status (fst (main_on [py ''a.txt'']
              (answering DiffNameOnlyCached (0, Some (py ''.env'' @ [0x0A])) example_git)
              \<lparr>message = py ''   '', dry_run = True\<rparr> (start Map.empty))) = 3
   \<and> Run DiffNameOnlyCached \<lparr>returncode = 0, stdout = Some (py ''a.txt'' @ [0x0A])\<rparr>
       \<in> set (trace (snd (main_on [py ''a.txt''] (answering Status (128, Some []) example_git)
              \<lparr>message = py ''   '', dry_run = True\<rparr> (start Map.empty))))
   \<and> exit_status (fst (main_on [py ''a.txt''] (answering Status (128, Some []) example_git)
              \<lparr>message = py ''   '', dry_run = True\<rparr> (start Map.empty))) = 128"
  by (simp add: run_env_staged run_status_fails)
     (simp add: strip_def is_space_def splitlines_def is_linebreak_def py_def)

text \<open>
  C10, amended. In a dry run the message is never looked at: the run with any other
  message is the same run, and \<open>main\<close> never returns 4. When the run reaches the
  short-circuit and its status command exits with 0, \<open>main\<close> returns 0, also for a
  blank message.
\<close>

theorem dry_run_skips_message_check:
  assumes "dry_run a"
  shows "main_on files git (a\<lparr>message := m\<rparr>) (start tree) = main_on files git a (start tree)
         \<and> fst (main_on files git a (start tree)) \<noteq> Inr 4
         \<and> (\<forall>t. Run Status t \<in> set (trace (snd (main_on files git a (start tree))))
                  \<and> returncode t = 0 \<longrightarrow>
               fst (main_on files git a (start tree)) = Inr 0)"
  using dry_run_ignores_message[OF assms] dry_run_not_4[OF assms] dry_run_reached[OF assms]
  by auto

theorem dry_run_skips_message_check_witness:
  "dry_run \<lparr>message = py ''   '', dry_run = True\<rparr>
   \<and> main_on [py ''a.txt''] example_git
        (\<lparr>message = py ''   '', dry_run = True\<rparr>\<lparr>message := py ''fix''\<rparr>)
        (start [py ''a.txt'' \<mapsto> RegularFile [0x61, 0x20, 0x0D, 0x0A]])
       = main_on [py ''a.txt''] example_git \<lparr>message = py ''   '', dry_run = True\<rparr>
           (start [py ''a.txt'' \<mapsto> RegularFile [0x61, 0x20, 0x0D, 0x0A]])
   \<and> Run Status \<lparr>returncode = 0, stdout = None\<rparr>
       \<in> set (trace (snd (main_on [py ''a.txt''] example_git
                            \<lparr>message = py ''   '', dry_run = True\<rparr>
                            (start [py ''a.txt'' \<mapsto> RegularFile [0x61, 0x20, 0x0D, 0x0A]]))))
   \<and> fst (main_on [py ''a.txt''] example_git \<lparr>message = py ''   '', dry_run = True\<rparr>
            (start [py ''a.txt'' \<mapsto> RegularFile [0x61, 0x20, 0x0D, 0x0A]])) = Inr 0"
proof -
  let ?a = "\<lparr>message = py ''   '', dry_run = True\<rparr>"
  let ?tree = "[py ''a.txt'' \<mapsto> RegularFile [0x61, 0x20, 0x0D, 0x0A]]"
  let ?R = "main_on [py ''a.txt''] example_git ?a (start ?tree)"
  let ?t = "\<lparr>returncode = 0, stdout = None\<rparr> :: proc"
  have h: "dry_run ?a" by simp
  note T = dry_run_skips_message_check[OF h, of "[py ''a.txt'']" example_git "py ''fix''" ?tree]
  have m: "Run Status ?t \<in> set (trace (snd ?R)) \<and> returncode ?t = 0" by (simp add: run_dry)
  from T have 1: "main_on [py ''a.txt''] example_git (?a\<lparr>message := py ''fix''\<rparr>) (start ?tree) = ?R"
    by (rule conjunct1)
  from T have "Run Status ?t \<in> set (trace (snd ?R)) \<and> returncode ?t = 0 \<longrightarrow> fst ?R = Inr 0"
    by blast
  with m have 2: "fst ?R = Inr 0" by (rule rev_mp)
  from h 1 m 2 show ?thesis by blast
qed

end
